theory Spec2Isabelle
  imports Main "HOL-Library.Multiset"
begin

section \<open>Values on the wire\<close>

text \<open>
  The arguments of a function call arrive as parsed JSON, and every handler result is a
  plain object literal; both are values of \<open>json\<close>. A JavaScript string is a
  \<open>string\<close> (code units restricted to the 8-bit \<open>char\<close>), and an object is the
  list of its own properties in enumeration order. \<open>undefined\<close> is \<open>None\<close> of
  \<open>json option\<close>.

  A number is a double. The model has the safe integers (\<open>JNum n\<close> with
  \<open>n\<close> between \<open>-(2^53 - 1)\<close> and \<open>2^53 - 1\<close>, which are doubles and print as
  their decimal digits) and the three other numbers on which reading and printing JSON
  text do not agree: \<open>-0\<close>, which JSON text can denote, and the two infinities,
  which \<open>JSON.parse\<close> gives for a literal beyond the range of the doubles. The
  other doubles (fractions, integers beyond the safe range) have no value in the
  model; \<open>NaN\<close> is not the value of any JSON text.
\<close>

datatype json =
    JNull
  | JBool bool
  | JNum int
  | JNegZero
  | JInfinity
  | JNegInfinity
  | JStr string
  | JArr "json list"
  | JObj "(string \<times> json) list"

text \<open>What the source can raise: every fault in the handlers is a \<open>TypeError\<close>.\<close>

datatype error = TypeError

text \<open>
  Property read \<open>a.k\<close> on a value that is neither \<open>undefined\<close> nor \<open>null\<close>. Only
  objects carry the properties the handlers read (\<open>voucherId\<close>, \<open>customerEmail\<close>,
  \<open>issuedVouchers\<close>); on a primitive or an array the read gives \<open>undefined\<close>.
\<close>

fun read_prop :: "json \<Rightarrow> string \<Rightarrow> json option" where
  "read_prop (JObj kvs) k = map_of kvs k"
| "read_prop _ k = None"

text \<open>JavaScript truthiness, as tested by \<open>if (voucherId)\<close>.\<close>

fun truthy :: "json option \<Rightarrow> bool" where
  "truthy None = False"
| "truthy (Some JNull) = False"
| "truthy (Some (JBool b)) = b"
| "truthy (Some (JNum n)) = (n \<noteq> 0)"
| "truthy (Some JNegZero) = False"
| "truthy (Some JInfinity) = True"
| "truthy (Some JNegInfinity) = True"
| "truthy (Some (JStr s)) = (s \<noteq> [])"
| "truthy (Some (JArr vs)) = True"
| "truthy (Some (JObj kvs)) = True"

text \<open>
  The tests \<open>typeof x === 'number'\<close> and, on a number, \<open>x < 0\<close>
  (\<open>-0 < 0\<close> is false).
\<close>

fun typeof_number :: "json option \<Rightarrow> bool" where
  "typeof_number (Some (JNum n)) = True"
| "typeof_number (Some JNegZero) = True"
| "typeof_number (Some JInfinity) = True"
| "typeof_number (Some JNegInfinity) = True"
| "typeof_number v = False"

fun less_than_zero :: "json option \<Rightarrow> bool" where
  "less_than_zero (Some (JNum n)) = (n < 0)"
| "less_than_zero (Some JNegInfinity) = True"
| "less_than_zero v = False"

text \<open>
  \<open>String.prototype.toUpperCase\<close> and \<open>toLowerCase\<close> on 8-bit strings: the ASCII
  letters change case, every other character is kept.
\<close>

definition toUpperChar :: "char \<Rightarrow> char" where
  "toUpperChar c =
     (let n = (of_char c :: nat) in if 97 \<le> n \<and> n \<le> 122 then char_of (n - 32) else c)"

definition toLowerChar :: "char \<Rightarrow> char" where
  "toLowerChar c =
     (let n = (of_char c :: nat) in if 65 \<le> n \<and> n \<le> 90 then char_of (n + 32) else c)"

text \<open>
  The method calls \<open>x.toUpperCase()\<close> and \<open>x.toLowerCase()\<close> on a truthy value: a
  value that is not a string has no such method, and the call raises.
\<close>

fun toUpperCase :: "json option \<Rightarrow> error + string" where
  "toUpperCase (Some (JStr s)) = Inr (map toUpperChar s)"
| "toUpperCase _ = Inl TypeError"

fun toLowerCase :: "json option \<Rightarrow> error + string" where
  "toLowerCase (Some (JStr s)) = Inr (map toLowerChar s)"
| "toLowerCase _ = Inl TypeError"

text \<open>Decimal rendering of an integral number, as a template literal prints it.\<close>

definition digit_char :: "int \<Rightarrow> char" where
  "digit_char d = char_of (48 + nat d)"

function show_digits :: "int \<Rightarrow> string" where
  "show_digits n =
     (if n < 10 then [digit_char n] else show_digits (n div 10) @ [digit_char (n mod 10)])"
  by pat_completeness auto
termination
  by (relation "measure nat") auto

declare show_digits.simps [simp del]

definition Number_toString :: "int \<Rightarrow> string" where
  "Number_toString i = (if i < 0 then CHR ''-'' # show_digits (- i) else show_digits i)"

section \<open>JSON text\<close>

text \<open>
  \<open>JSON.stringify(v)\<close> with no indentation. A string is quoted with the escapes of
  ECMAScript's QuoteJSONString: the quote, the backslash, the five short escapes, and
  \<open>\u00xx\<close> (lower-case hexadecimal) for the other characters below \<open>0x20\<close>.
  A safe integer prints as its decimal digits, \<open>-0\<close> prints as \<open>0\<close>, and a
  number that is not finite prints as \<open>null\<close>.
\<close>

definition hex_char :: "nat \<Rightarrow> char" where
  "hex_char d = (if d < 10 then char_of (48 + d) else char_of (87 + d))"

definition escape_char :: "char \<Rightarrow> string" where
  "escape_char c =
     (if c = CHR 0x22 then [CHR 0x5C, CHR 0x22]
      else if c = CHR 0x5C then [CHR 0x5C, CHR 0x5C]
      else if c = CHR 0x08 then [CHR 0x5C, CHR ''b'']
      else if c = CHR 0x0C then [CHR 0x5C, CHR ''f'']
      else if c = CHR 0x0A then [CHR 0x5C, CHR ''n'']
      else if c = CHR 0x0D then [CHR 0x5C, CHR ''r'']
      else if c = CHR 0x09 then [CHR 0x5C, CHR ''t'']
      else if (of_char c :: nat) < 32 then
        [CHR 0x5C, CHR ''u'', CHR ''0'', CHR ''0'',
         hex_char (of_char c div 16), hex_char (of_char c mod 16)]
      else [c])"

definition quote_string :: "string \<Rightarrow> string" where
  "quote_string s = CHR 0x22 # concat (map escape_char s) @ [CHR 0x22]"

fun JSON_stringify :: "json \<Rightarrow> string"
  and stringify_elements :: "json list \<Rightarrow> string"
  and stringify_members :: "(string \<times> json) list \<Rightarrow> string"
where
  "JSON_stringify JNull = ''null''"
| "JSON_stringify (JBool b) = (if b then ''true'' else ''false'')"
| "JSON_stringify (JNum i) = Number_toString i"
| "JSON_stringify JNegZero = ''0''"
| "JSON_stringify JInfinity = ''null''"
| "JSON_stringify JNegInfinity = ''null''"
| "JSON_stringify (JStr s) = quote_string s"
| "JSON_stringify (JArr vs) = ''['' @ stringify_elements vs @ '']''"
| "JSON_stringify (JObj kvs) = ''{'' @ stringify_members kvs @ ''}''"
| "stringify_elements [] = []"
| "stringify_elements [v] = JSON_stringify v"
| "stringify_elements (v # w # vs) = JSON_stringify v @ '','' @ stringify_elements (w # vs)"
| "stringify_members [] = []"
| "stringify_members [(k, v)] = quote_string k @ '':'' @ JSON_stringify v"
| "stringify_members ((k, v) # m # ms) =
     quote_string k @ '':'' @ JSON_stringify v @ '','' @ stringify_members (m # ms)"

text \<open>
  \<open>JSON.parse\<close>. The result \<open>Some v\<close> says that the builtin returns \<open>v\<close>.
  \<open>None\<close> says that the builtin raises a \<open>SyntaxError\<close>, or that the text holds
  something the model does not read: a number whose decimal value is no safe integer,
  does not round to zero and is not beyond the doubles (its double is not computed),
  or an escape \<open>\uxxxx\<close> above \<open>0xff\<close> in a string. The reader of strings
  takes the text after the opening quote up to the closing one.
\<close>

definition hex_val :: "char \<Rightarrow> nat option" where
  "hex_val c =
     (let n = (of_char c :: nat) in
      if 48 \<le> n \<and> n \<le> 57 then Some (n - 48)
      else if 97 \<le> n \<and> n \<le> 102 then Some (n - 87)
      else if 65 \<le> n \<and> n \<le> 70 then Some (n - 55)
      else None)"

definition unescape :: "char \<Rightarrow> char option" where
  "unescape e =
     (if e = CHR 0x22 then Some (CHR 0x22)
      else if e = CHR 0x5C then Some (CHR 0x5C)
      else if e = CHR ''/'' then Some (CHR ''/'')
      else if e = CHR ''b'' then Some (CHR 0x08)
      else if e = CHR ''f'' then Some (CHR 0x0C)
      else if e = CHR ''n'' then Some (CHR 0x0A)
      else if e = CHR ''r'' then Some (CHR 0x0D)
      else if e = CHR ''t'' then Some (CHR 0x09)
      else None)"

definition cons_char :: "char \<Rightarrow> (string \<times> string) option \<Rightarrow> (string \<times> string) option" where
  "cons_char c res = (case res of None \<Rightarrow> None | Some (s, r) \<Rightarrow> Some (c # s, r))"

fun parse_chars :: "string \<Rightarrow> (string \<times> string) option" where
  "parse_chars [] = None"
| "parse_chars (c # cs) =
     (if c = CHR 0x22 then Some ([], cs)
      else if c = CHR 0x5C then
        (case cs of
           [] \<Rightarrow> None
         | e # r \<Rightarrow>
             if e = CHR ''u'' then
               (case r of
                  h1 # h2 # h3 # h4 # r' \<Rightarrow>
                    (case (hex_val h1, hex_val h2, hex_val h3, hex_val h4) of
                       (Some a, Some b, Some c', Some d) \<Rightarrow>
                         if ((a * 16 + b) * 16 + c') * 16 + d < 256
                         then cons_char (char_of (((a * 16 + b) * 16 + c') * 16 + d)) (parse_chars r')
                         else None
                     | _ \<Rightarrow> None)
                | _ \<Rightarrow> None)
             else
               (case unescape e of
                  None \<Rightarrow> None
                | Some ch \<Rightarrow> cons_char ch (parse_chars r)))
      else if (of_char c :: nat) < 32 then None
      else cons_char c (parse_chars cs))"

text \<open>
  A number is an optional minus sign, decimal digits with no leading zero, an optional
  fraction and an optional exponent. Its value, the digits \<open>m\<close> of integer part and
  fraction times \<open>10 ^ e\<close>, is rounded to the nearest double:
  a safe integer is a double and is the result; a value of at least
  \<open>2^1024 - 2^970\<close>, half way from the largest double to \<open>2^1024\<close>, gives
  the infinity of its sign; a value of at most \<open>2^-1075\<close>, half of the smallest
  double above zero, gives the zero of its sign. For any other value the double is
  not computed, and the number is not read.
\<close>

definition is_digit :: "char \<Rightarrow> bool" where
  "is_digit c = (48 \<le> (of_char c :: nat) \<and> (of_char c :: nat) \<le> 57)"

definition digits_value :: "string \<Rightarrow> int" where
  "digits_value ds = foldl (\<lambda>a c. 10 * a + (int (of_char c) - 48)) 0 ds"

definition safe_integer :: "int \<Rightarrow> bool" where
  "safe_integer n = (- 9007199254740991 \<le> n \<and> n \<le> 9007199254740991)"

definition round_decimal :: "bool \<Rightarrow> int \<Rightarrow> int \<Rightarrow> json option" where
  "round_decimal neg m e =
     (let num = (if 0 \<le> e then m * 10 ^ nat e else m);
          den = (if 0 \<le> e then 1 else 10 ^ nat (- e))
      in if num mod den = 0 \<and> num div den \<le> 9007199254740991 then
           (if neg \<and> num = 0 then Some JNegZero
            else Some (JNum (if neg then - (num div den) else num div den)))
         else if (2 ^ 1024 - 2 ^ 970) * den \<le> num then
           Some (if neg then JNegInfinity else JInfinity)
         else if num * 2 ^ 1075 \<le> den then
           Some (if neg then JNegZero else JNum 0)
         else None)"

text \<open>
  The parts of a number. A leading zero before another digit, a point with no digit
  after it and an exponent with no digit leave text that no value may be followed by,
  so they are errors here already.
\<close>

definition parse_digits :: "string \<Rightarrow> (string \<times> string) option" where
  "parse_digits s =
     (let ds = takeWhile is_digit s in
      if ds = [] \<or> (hd ds = CHR ''0'' \<and> 1 < length ds) then None
      else Some (ds, dropWhile is_digit s))"

definition parse_fraction :: "string \<Rightarrow> (string \<times> string) option" where
  "parse_fraction s =
     (case s of
        [] \<Rightarrow> Some ([], s)
      | c # cs \<Rightarrow>
          if c = CHR ''.'' then
            (if takeWhile is_digit cs = [] then None
             else Some (takeWhile is_digit cs, dropWhile is_digit cs))
          else Some ([], s))"

definition parse_exponent :: "string \<Rightarrow> (int \<times> string) option" where
  "parse_exponent s =
     (case s of
        [] \<Rightarrow> Some (0, s)
      | c # cs \<Rightarrow>
          if c = CHR ''e'' \<or> c = CHR ''E'' then
            (let neg = (cs \<noteq> [] \<and> hd cs = CHR ''-'');
                 cs' = (if cs \<noteq> [] \<and> (hd cs = CHR ''-'' \<or> hd cs = CHR ''+'') then tl cs else cs)
             in if takeWhile is_digit cs' = [] then None
                else Some (if neg then - digits_value (takeWhile is_digit cs')
                           else digits_value (takeWhile is_digit cs'),
                           dropWhile is_digit cs'))
          else Some (0, s))"

definition parse_number :: "string \<Rightarrow> (json \<times> string) option" where
  "parse_number s =
     (let neg = (s \<noteq> [] \<and> hd s = CHR ''-'') in
      case parse_digits (if neg then tl s else s) of
        None \<Rightarrow> None
      | Some (ds, r1) \<Rightarrow>
          (case parse_fraction r1 of
             None \<Rightarrow> None
           | Some (fs, r2) \<Rightarrow>
               (case parse_exponent r2 of
                  None \<Rightarrow> None
                | Some (x, r3) \<Rightarrow>
                    (case round_decimal neg (digits_value (ds @ fs)) (x - int (length fs)) of
                       None \<Rightarrow> None
                     | Some v \<Rightarrow> Some (v, r3)))))"

definition is_ws :: "char \<Rightarrow> bool" where
  "is_ws c = (c = CHR '' '' \<or> c = CHR 0x09 \<or> c = CHR 0x0A \<or> c = CHR 0x0D)"

definition skip_ws :: "string \<Rightarrow> string" where
  "skip_ws s = dropWhile is_ws s"

text \<open>
  Defining a property that the object already has replaces its value in place; a new
  property goes to the end. (The reordering of array-index keys is not modelled.)
\<close>

fun set_prop :: "string \<Rightarrow> json \<Rightarrow> (string \<times> json) list \<Rightarrow> (string \<times> json) list" where
  "set_prop k v [] = [(k, v)]"
| "set_prop k v (p # ps) = (if fst p = k then (k, v) # ps else p # set_prop k v ps)"

text \<open>
  The recursive descent, with the recursion depth as fuel: every call passes one less
  to the calls it makes. \<open>parse_elements\<close> reads the elements of an array after
  \<open>[\<close> up to \<open>]\<close>, \<open>parse_members\<close> the members of an object after \<open>{\<close> up to
  \<open>}\<close>, adding them to the properties read so far.
\<close>

fun parse_value :: "nat \<Rightarrow> string \<Rightarrow> (json \<times> string) option"
  and parse_elements :: "nat \<Rightarrow> string \<Rightarrow> (json list \<times> string) option"
  and parse_members ::
    "nat \<Rightarrow> (string \<times> json) list \<Rightarrow> string \<Rightarrow> ((string \<times> json) list \<times> string) option"
where
  "parse_value 0 s = None"
| "parse_value (Suc n) s =
     (case skip_ws s of
        [] \<Rightarrow> None
      | c # cs \<Rightarrow>
          if c = CHR 0x22 then
            (case parse_chars cs of None \<Rightarrow> None | Some (str, r) \<Rightarrow> Some (JStr str, r))
          else if c = CHR ''['' then
            (case skip_ws cs of
               [] \<Rightarrow> None
             | d # r \<Rightarrow>
                 if d = CHR '']'' then Some (JArr [], r)
                 else (case parse_elements n cs of
                         None \<Rightarrow> None
                       | Some (vs, r') \<Rightarrow> Some (JArr vs, r')))
          else if c = CHR ''{'' then
            (case skip_ws cs of
               [] \<Rightarrow> None
             | d # r \<Rightarrow>
                 if d = CHR ''}'' then Some (JObj [], r)
                 else (case parse_members n [] cs of
                         None \<Rightarrow> None
                       | Some (kvs, r') \<Rightarrow> Some (JObj kvs, r')))
          else if take 4 (c # cs) = ''null'' then Some (JNull, drop 4 (c # cs))
          else if take 4 (c # cs) = ''true'' then Some (JBool True, drop 4 (c # cs))
          else if take 5 (c # cs) = ''false'' then Some (JBool False, drop 5 (c # cs))
          else parse_number (c # cs))"
| "parse_elements 0 s = None"
| "parse_elements (Suc n) s =
     (case parse_value n s of
        None \<Rightarrow> None
      | Some (v, r) \<Rightarrow>
          (case skip_ws r of
             [] \<Rightarrow> None
           | c # r' \<Rightarrow>
               if c = CHR '','' then
                 (case parse_elements n r' of
                    None \<Rightarrow> None
                  | Some (vs, r'') \<Rightarrow> Some (v # vs, r''))
               else if c = CHR '']'' then Some ([v], r')
               else None))"
| "parse_members 0 acc s = None"
| "parse_members (Suc n) acc s =
     (case skip_ws s of
        [] \<Rightarrow> None
      | c # cs \<Rightarrow>
          if c = CHR 0x22 then
            (case parse_chars cs of
               None \<Rightarrow> None
             | Some (k, r) \<Rightarrow>
                 (case skip_ws r of
                    [] \<Rightarrow> None
                  | c2 # r2 \<Rightarrow>
                      if c2 = CHR '':'' then
                        (case parse_value n r2 of
                           None \<Rightarrow> None
                         | Some (v, r3) \<Rightarrow>
                             (case skip_ws r3 of
                                [] \<Rightarrow> None
                              | c3 # r4 \<Rightarrow>
                                  if c3 = CHR '','' then parse_members n (set_prop k v acc) r4
                                  else if c3 = CHR ''}'' then Some (set_prop k v acc, r4)
                                  else None))
                      else None))
          else None)"

text \<open>The whole text must be one value, with nothing but white space after it.\<close>

definition JSON_parse :: "string \<Rightarrow> json option" where
  "JSON_parse s =
     (case parse_value (Suc (length s)) s of
        None \<Rightarrow> None
      | Some (v, r) \<Rightarrow> if skip_ws r = [] then Some v else None)"

text \<open>
  The values that are JavaScript values: no object has two properties of the same
  name, and every \<open>JNum\<close> holds a safe integer.
\<close>

fun wf_json :: "json \<Rightarrow> bool" where
  "wf_json (JNum n) = safe_integer n"
| "wf_json (JArr vs) = list_all wf_json vs"
| "wf_json (JObj kvs) = (distinct (map fst kvs) \<and> list_all (\<lambda>p. wf_json (snd p)) kvs)"
| "wf_json _ = True"

section \<open>The tool handlers\<close>

text \<open>
  \<open>fetchVoucherStatus\<close>, after its simulated delay. The first block is
  \<open>if (voucherId) { ... }\<close>: it returns a payload (\<open>Some\<close>), falls through (\<open>None\<close>)
  or raises.
\<close>

definition voucher_block :: "json option \<Rightarrow> error + json option" where
  "voucher_block voucherId =
     (if truthy voucherId then
        (case toUpperCase voucherId of
           Inl e \<Rightarrow> Inl e
         | Inr u \<Rightarrow>
             if u = ''VOUCHER123'' then
               Inr (Some (JObj [(''status'', JStr ''active''), (''discount'', JStr ''25%''),
                                (''expires'', JStr ''2024-12-31'')]))
             else
               (case toUpperCase voucherId of
                  Inl e \<Rightarrow> Inl e
                | Inr u' \<Rightarrow>
                    if u' = ''EXPIRED456'' then
                      Inr (Some (JObj [(''status'', JStr ''expired''),
                                       (''reason'', JStr ''Voucher has passed its expiry date.'')]))
                    else Inr None))
      else Inr None)"

text \<open>The second block, \<open>if (customerEmail) { ... }\<close>.\<close>

definition email_block :: "json option \<Rightarrow> error + json option" where
  "email_block customerEmail =
     (if truthy customerEmail then
        (case toLowerCase customerEmail of
           Inl e \<Rightarrow> Inl e
         | Inr email \<Rightarrow>
             if email = ''active@example.com'' then
               Inr (Some (JObj [(''status'', JStr ''active''),
                                (''discount'', JStr ''10% loyalty voucher''),
                                (''expires'', JStr ''2025-01-31'')]))
             else if email = ''expired@example.com'' then
               Inr (Some (JObj [(''status'', JStr ''expired''),
                                (''reason'', JStr ''Voucher was a one-time use and has been redeemed.'')]))
             else Inr None)
      else Inr None)"

text \<open>
  The destructuring \<open>const { voucherId, customerEmail } = args\<close> raises on
  \<open>undefined\<close> and \<open>null\<close>; then the two blocks run in order, and the last
  statement returns the not-found payload.
\<close>

definition fetchVoucherStatus :: "json option \<Rightarrow> error + json" where
  "fetchVoucherStatus args =
     (case args of
        None \<Rightarrow> Inl TypeError
      | Some JNull \<Rightarrow> Inl TypeError
      | Some a \<Rightarrow>
          (let voucherId = read_prop a ''voucherId''; customerEmail = read_prop a ''customerEmail'' in
           case voucher_block voucherId of
             Inl e \<Rightarrow> Inl e
           | Inr (Some r) \<Rightarrow> Inr r
           | Inr None \<Rightarrow>
               (case email_block customerEmail of
                  Inl e \<Rightarrow> Inl e
                | Inr (Some r) \<Rightarrow> Inr r
                | Inr None \<Rightarrow>
                    Inr (JObj [(''status'', JStr ''not_found''),
                               (''message'', JStr ''No voucher could be found with the provided details.'')]))))"

text \<open>
  \<open>submitDailyReport\<close>, after its simulated delay; \<open>now\<close> is what
  \<open>new Date().getTime()\<close> reads. The read \<open>args.issuedVouchers\<close> raises on
  \<open>undefined\<close> and \<open>null\<close>.
\<close>

definition submitDailyReport :: "int \<Rightarrow> json option \<Rightarrow> error + json" where
  "submitDailyReport now args =
     (case args of
        None \<Rightarrow> Inl TypeError
      | Some JNull \<Rightarrow> Inl TypeError
      | Some a \<Rightarrow>
          if \<not> typeof_number (read_prop a ''issuedVouchers'') \<or>
             less_than_zero (read_prop a ''issuedVouchers'')
          then
            Inr (JObj [(''status'', JStr ''error''),
                       (''message'', JStr ''Invalid number of issued vouchers.'')])
          else
            (let reportId = ''report_'' @ Number_toString now in
             Inr (JObj [(''status'', JStr ''success''),
                        (''message'',
                           JStr (''Report successfully submitted with ID: '' @ reportId @ ''.'')),
                        (''reportId'', JStr reportId),
                        (''submittedData'', a)])))"

section \<open>The invocation dispatcher\<close>

text \<open>
  A function call of the \<open>toolcall\<close> event (\<open>id\<close>, \<open>name\<close>, \<open>args\<close>) and
  the entry that answers it (\<open>id\<close>, \<open>name\<close>, \<open>response: { result }\<close>); the
  fields carry a prefix to keep the two records apart.
\<close>

record FunctionCallRequest =
  fc_id :: string
  fc_name :: string
  fc_args :: "json option"

record response =
  result :: string

record FunctionCallResult =
  fr_id :: string
  fr_name :: string
  fr_response :: response

text \<open>
  A turn of the log store. The two messages are template strings around pretty-printed
  JSON; the model keeps what they are printed from.
\<close>

datatype message =
    TriggerMessage string "json option"
  | ResponseMessage "json list"

record LogTurn =
  role :: string
  message :: message
  isFinal :: bool

text \<open>
  A call suspended in the delay of its handler (\<open>setTimeout\<close> of 800 or 600 ms), and
  the state of one run of \<open>onToolCall\<close>: the array \<open>functionResponses\<close>, the turns
  logged, the pending timers in the order they were set, and the clock.
\<close>

record timer =
  t_delay :: nat
  t_call :: FunctionCallRequest

record dispatch_state =
  functionResponses :: "FunctionCallResult list"
  turns :: "LogTurn list"
  pending :: "timer list"
  clock :: int

text \<open>
  The value \<open>functionResult\<close> gets: the chain of \<open>if\<close>s on \<open>fc.name\<close>, each handler
  called under its \<open>try\<close>, with the payload of the \<open>catch\<close> when it raises. The two
  handlers are parameters; \<open>now\<close> is the clock when the handler's body runs.
\<close>

definition function_result ::
  "(json option \<Rightarrow> error + json) \<Rightarrow> (int \<Rightarrow> json option \<Rightarrow> error + json) \<Rightarrow>
   int \<Rightarrow> FunctionCallRequest \<Rightarrow> json" where
  "function_result fetch submit now fc =
     (if fc_name fc = ''get_voucher_status'' then
        (case fetch (fc_args fc) of
           Inr r \<Rightarrow> r
         | Inl e \<Rightarrow> JObj [(''error'', JStr ''An error occurred while fetching the voucher status.'')])
      else if fc_name fc = ''insert_daily_report'' then
        (case submit now (fc_args fc) of
           Inr r \<Rightarrow> r
         | Inl e \<Rightarrow> JObj [(''error'', JStr ''An error occurred while submitting the daily report.'')])
      else JObj [(''result'', JStr ''ok'')])"

text \<open>The entry pushed for a call: \<open>{ id, name, response: { result: JSON.stringify(...) } }\<close>.\<close>

definition function_response :: "FunctionCallRequest \<Rightarrow> json \<Rightarrow> FunctionCallResult" where
  "function_response fc functionResult =
     \<lparr>fr_id = fc_id fc, fr_name = fc_name fc,
      fr_response = \<lparr>result = JSON_stringify functionResult\<rparr>\<rparr>"

text \<open>
  The \<open>await\<close> a call reaches: the delay inside the handler it calls, or none on the
  last branch, which runs to its push without suspending.
\<close>

definition call_delay :: "FunctionCallRequest \<Rightarrow> nat option" where
  "call_delay fc =
     (if fc_name fc = ''get_voucher_status'' then Some 800
      else if fc_name fc = ''insert_daily_report'' then Some 600
      else None)"

text \<open>The part of the callback after the delay, if any: the result and the push.\<close>

definition complete_call ::
  "(json option \<Rightarrow> error + json) \<Rightarrow> (int \<Rightarrow> json option \<Rightarrow> error + json) \<Rightarrow>
   FunctionCallRequest \<Rightarrow> dispatch_state \<Rightarrow> dispatch_state" where
  "complete_call fetch submit fc s =
     s\<lparr>functionResponses :=
         functionResponses s @ [function_response fc (function_result fetch submit (clock s) fc)]\<rparr>"

text \<open>
  The callback of \<open>map\<close> up to its first \<open>await\<close>: it logs the trigger, then either
  suspends on the timer of its handler or completes at once.
\<close>

definition start_call ::
  "(json option \<Rightarrow> error + json) \<Rightarrow> (int \<Rightarrow> json option \<Rightarrow> error + json) \<Rightarrow>
   dispatch_state \<Rightarrow> FunctionCallRequest \<Rightarrow> dispatch_state" where
  "start_call fetch submit s fc =
     (let s1 = s\<lparr>turns := turns s @
                  [\<lparr>role = ''system'', message = TriggerMessage (fc_name fc) (fc_args fc),
                    isFinal = True\<rparr>]\<rparr>
      in case call_delay fc of
           Some d \<Rightarrow> s1\<lparr>pending := pending s1 @ [\<lparr>t_delay = d, t_call = fc\<rparr>]\<rparr>
         | None \<Rightarrow> complete_call fetch submit fc s1)"

text \<open>
  Which timer fires next. A timer never fires before one set earlier whose delay is not
  longer, so the next one is the oldest pending timer, or the oldest one with a shorter
  delay than it. Normally the shorter delay has run out first; \<open>late\<close> says that the
  oldest timer has run out already (the calls were started more than the difference of
  the delays apart).
\<close>

fun take_out :: "('a \<Rightarrow> bool) \<Rightarrow> 'a list \<Rightarrow> ('a \<times> 'a list) option" where
  "take_out P [] = None"
| "take_out P (x # xs) =
     (if P x then Some (x, xs)
      else (case take_out P xs of None \<Rightarrow> None | Some (y, ys) \<Rightarrow> Some (y, x # ys)))"

definition next_due :: "bool \<Rightarrow> timer list \<Rightarrow> (timer \<times> timer list) option" where
  "next_due late ps =
     (case ps of
        [] \<Rightarrow> None
      | p # ps' \<Rightarrow>
          if late then Some (p, ps')
          else (case take_out (\<lambda>t. t_delay t < t_delay p) ps' of
                  None \<Rightarrow> Some (p, ps')
                | Some (t, rest) \<Rightarrow> Some (t, p # rest)))"

text \<open>
  What the environment decides at each firing of a timer: whether the oldest timer is
  late, and by how many milliseconds the clock has advanced since the previous firing
  (since the event, for the first). When the list is used up, the remaining timers
  fire in the normal order with no further advance of the clock.
\<close>

record tick =
  late :: bool
  elapsed :: nat

definition this_tick :: "tick list \<Rightarrow> tick" where
  "this_tick ticks = (case ticks of [] \<Rightarrow> \<lparr>late = False, elapsed = 0\<rparr> | t # _ \<Rightarrow> t)"

lemma take_out_length: "take_out P xs = Some (y, ys) \<Longrightarrow> length xs = Suc (length ys)"
  by (induction xs arbitrary: y ys) (auto split: if_splits option.splits)

lemma next_due_length: "next_due l ps = Some (t, rest) \<Longrightarrow> length ps = Suc (length rest)"
  by (auto simp: next_due_def split: list.splits if_splits option.splits dest: take_out_length)

text \<open>
  \<open>Promise.all\<close>: the timers fire one after the other until none is pending; each
  firing runs the rest of its call to the push.
\<close>

function run_timers ::
  "(json option \<Rightarrow> error + json) \<Rightarrow> (int \<Rightarrow> json option \<Rightarrow> error + json) \<Rightarrow>
   tick list \<Rightarrow> dispatch_state \<Rightarrow> dispatch_state" where
  "run_timers fetch submit ticks s =
     (case next_due (late (this_tick ticks)) (pending s) of
        None \<Rightarrow> s
      | Some (t, rest) \<Rightarrow>
          run_timers fetch submit (tl ticks)
            (complete_call fetch submit (t_call t)
               (s\<lparr>pending := rest, clock := clock s + int (elapsed (this_tick ticks))\<rparr>)))"
  by pat_completeness auto
termination
  by (relation "measure (\<lambda>(fetch, submit, ticks, s). length (pending s))")
     (auto simp: complete_call_def dest: next_due_length)

declare run_timers.simps [simp del]

text \<open>
  The entry of the response log: the result parsed back for display, or the entry as
  it is when the parse fails.
\<close>

definition parsed_for_logging :: "FunctionCallResult \<Rightarrow> json" where
  "parsed_for_logging fr =
     JObj [(''id'', JStr (fr_id fr)), (''name'', JStr (fr_name fr)),
           (''response'',
              JObj [(''result'',
                     (case JSON_parse (result (fr_response fr)) of
                        Some v \<Rightarrow> v
                      | None \<Rightarrow> JStr (result (fr_response fr))))])]"

text \<open>
  What one run hands to its collaborators: the batch given to \<open>sendToolResponse\<close>
  and the turns added to the log. A run starts at the clock reading \<open>t0\<close> of the
  event, starts every callback in request order, lets the timers fire as the
  environment's \<open>ticks\<close> say, logs the responses if there are any, and sends them.
  Nothing outside the two \<open>try\<close> blocks can raise, so a run has no failing outcome.
\<close>

record outcome =
  sent :: "FunctionCallResult list"
  logged :: "LogTurn list"

definition onToolCall_with ::
  "(json option \<Rightarrow> error + json) \<Rightarrow> (int \<Rightarrow> json option \<Rightarrow> error + json) \<Rightarrow>
   int \<Rightarrow> tick list \<Rightarrow> FunctionCallRequest list \<Rightarrow> outcome" where
  "onToolCall_with fetch submit t0 ticks functionCalls =
     (let s0 = \<lparr>functionResponses = [], turns = [], pending = [], clock = t0\<rparr>;
          s1 = foldl (start_call fetch submit) s0 functionCalls;
          s2 = run_timers fetch submit ticks s1;
          s3 = (if 0 < length (functionResponses s2) then
                  s2\<lparr>turns := turns s2 @
                        [\<lparr>role = ''system'',
                          message = ResponseMessage (map parsed_for_logging (functionResponses s2)),
                          isFinal = True\<rparr>]\<rparr>
                else s2)
      in \<lparr>sent = functionResponses s3, logged = turns s3\<rparr>)"

text \<open>The handler of the \<open>toolcall\<close> event, with the two mock handlers of the module.\<close>

definition onToolCall :: "int \<Rightarrow> tick list \<Rightarrow> FunctionCallRequest list \<Rightarrow> outcome" where
  "onToolCall = onToolCall_with fetchVoucherStatus submitDailyReport"

section \<open>Notions used in the statements\<close>

text \<open>
  Two characters are the same up to case when they are equal or the two cases of one
  ASCII letter; a string is a casing of another when they agree character by character
  up to case.
\<close>

definition case_variant :: "char \<Rightarrow> char \<Rightarrow> bool" where
  "case_variant c d =
     (c = d \<or>
      (97 \<le> (of_char c :: nat) \<and> (of_char c :: nat) \<le> 122 \<and> (of_char d :: nat) + 32 = of_char c) \<or>
      (65 \<le> (of_char c :: nat) \<and> (of_char c :: nat) \<le> 90 \<and> (of_char c :: nat) + 32 = of_char d))"

definition any_casing_of :: "string \<Rightarrow> string \<Rightarrow> bool" where
  "any_casing_of base s = list_all2 case_variant base s"

text \<open>
  An identifier that names no fixture: it is absent, or a string that is no casing of
  a known voucher code (of a known address).
\<close>

fun unknown_voucherId :: "json option \<Rightarrow> bool" where
  "unknown_voucherId None = True"
| "unknown_voucherId (Some (JStr s)) =
     (\<not> any_casing_of ''voucher123'' s \<and> \<not> any_casing_of ''expired456'' s)"
| "unknown_voucherId (Some v) = False"

fun unknown_customerEmail :: "json option \<Rightarrow> bool" where
  "unknown_customerEmail None = True"
| "unknown_customerEmail (Some (JStr s)) =
     (\<not> any_casing_of ''active@example.com'' s \<and> \<not> any_casing_of ''expired@example.com'' s)"
| "unknown_customerEmail (Some v) = False"

text \<open>What \<open>typeof x === 'number'\<close> and \<open>x < 0\<close> say of a property read.\<close>

fun is_number :: "json option \<Rightarrow> bool" where
  "is_number (Some (JNum n)) = True"
| "is_number (Some JNegZero) = True"
| "is_number (Some JInfinity) = True"
| "is_number (Some JNegInfinity) = True"
| "is_number v = False"

fun number_below_zero :: "json option \<Rightarrow> bool" where
  "number_below_zero (Some (JNum n)) = (n < 0)"
| "number_below_zero (Some JNegInfinity) = True"
| "number_below_zero v = False"

text \<open>
  The entries pushed for a list of calls, each completed at its own clock reading, and
  the timer a call with a delay sets.
\<close>

definition results_of ::
  "(json option \<Rightarrow> error + json) \<Rightarrow> (int \<Rightarrow> json option \<Rightarrow> error + json) \<Rightarrow>
   FunctionCallRequest list \<Rightarrow> int list \<Rightarrow> FunctionCallResult list" where
  "results_of fetch submit calls nows =
     map2 (\<lambda>fc now. function_response fc (function_result fetch submit now fc)) calls nows"

definition timer_of :: "FunctionCallRequest \<Rightarrow> timer" where
  "timer_of fc = \<lparr>t_delay = (case call_delay fc of Some d \<Rightarrow> d | None \<Rightarrow> 0), t_call = fc\<rparr>"

text \<open>
  The characters a number and a value start with in JSON text, and what may follow a
  number and a value.
\<close>

definition number_end :: "string \<Rightarrow> bool" where
  "number_end r = (case r of [] \<Rightarrow> True
     | c # _ \<Rightarrow> \<not> is_digit c \<and> c \<noteq> CHR ''.'' \<and> c \<noteq> CHR ''e'' \<and> c \<noteq> CHR ''E'')"

definition number_start :: "char \<Rightarrow> bool" where
  "number_start c = (c = CHR ''-'' \<or> is_digit c)"

definition value_end :: "string \<Rightarrow> bool" where
  "value_end r = (case r of [] \<Rightarrow> True
     | c # _ \<Rightarrow> c = CHR '','' \<or> c = CHR '']'' \<or> c = CHR ''}'')"

definition value_start :: "char \<Rightarrow> bool" where
  "value_start c =
     (c = CHR 0x22 \<or> c = CHR ''['' \<or> c = CHR ''{'' \<or> c = CHR ''n'' \<or> c = CHR ''t'' \<or>
      c = CHR ''f'' \<or> number_start c)"

text \<open>
  The values in which neither \<open>-0\<close> nor an infinite number occurs: the numbers that
  JSON text does not give back.
\<close>

fun no_minus_zero_or_infinity :: "json \<Rightarrow> bool" where
  "no_minus_zero_or_infinity JNegZero = False"
| "no_minus_zero_or_infinity JInfinity = False"
| "no_minus_zero_or_infinity JNegInfinity = False"
| "no_minus_zero_or_infinity (JArr vs) = list_all no_minus_zero_or_infinity vs"
| "no_minus_zero_or_infinity (JObj kvs) = list_all (\<lambda>p. no_minus_zero_or_infinity (snd p)) kvs"
| "no_minus_zero_or_infinity v = True"

text \<open>
  The JavaScript values that JSON text gives back: the values of \<open>wf_json\<close> in
  which neither \<open>-0\<close> nor an infinite number occurs.
\<close>

fun exact_json :: "json \<Rightarrow> bool" where
  "exact_json (JNum n) = safe_integer n"
| "exact_json JNegZero = False"
| "exact_json JInfinity = False"
| "exact_json JNegInfinity = False"
| "exact_json (JArr vs) = list_all exact_json vs"
| "exact_json (JObj kvs) = (distinct (map fst kvs) \<and> list_all (\<lambda>p. exact_json (snd p)) kvs)"
| "exact_json v = True"

text \<open>The arguments of a call are a JavaScript value, or missing.\<close>

definition wf_args :: "FunctionCallRequest \<Rightarrow> bool" where
  "wf_args fc = (case fc_args fc of None \<Rightarrow> True | Some a \<Rightarrow> wf_json a)"

text \<open>The arguments of a call hold neither \<open>-0\<close> nor an infinite number.\<close>

definition exact_args :: "FunctionCallRequest \<Rightarrow> bool" where
  "exact_args fc = (case fc_args fc of None \<Rightarrow> True | Some a \<Rightarrow> no_minus_zero_or_infinity a)"

text \<open>The \<open>reportId\<close> an entry of the batch sent carries, read from its result string.\<close>

definition reportId_of :: "FunctionCallResult \<Rightarrow> json option" where
  "reportId_of fr =
     (case JSON_parse (result (fr_response fr)) of
        Some v \<Rightarrow> read_prop v ''reportId''
      | None \<Rightarrow> None)"

text \<open>
  An identifier on which the case mapping raises: a truthy value that is not a string.
\<close>

fun raises_on :: "json option \<Rightarrow> bool" where
  "raises_on None = False"
| "raises_on (Some (JStr s)) = False"
| "raises_on (Some v) = truthy (Some v)"

section \<open>Case-insensitive matching\<close>

lemma of_char_toUpperChar:
  "(of_char (toUpperChar c) :: nat) =
     (if 97 \<le> (of_char c :: nat) \<and> (of_char c :: nat) \<le> 122 then of_char c - 32 else of_char c)"
proof -
  have "(of_char c :: nat) - 32 < 256"
    using nat_of_char_less_256 [of c] by arith
  then show ?thesis
    by (simp add: toUpperChar_def Let_def)
qed

lemma of_char_toLowerChar:
  "(of_char (toLowerChar c) :: nat) =
     (if 65 \<le> (of_char c :: nat) \<and> (of_char c :: nat) \<le> 90 then of_char c + 32 else of_char c)"
  by (simp add: toLowerChar_def Let_def)

lemma char_eq_nat: "(c = d) = ((of_char c :: nat) = of_char d)"
  by simp

lemma toUpperChar_eq_iff: "(toUpperChar c = toUpperChar d) = case_variant c d"
proof -
  have "(toUpperChar c = toUpperChar d) = ((of_char (toUpperChar c) :: nat) = of_char (toUpperChar d))"
    by simp
  also have "\<dots> = case_variant c d"
    unfolding of_char_toUpperChar case_variant_def char_eq_nat [of c d]
    by (auto simp del: of_char_eq_iff)
  finally show ?thesis .
qed

lemma toLowerChar_eq_iff: "(toLowerChar c = toLowerChar d) = case_variant c d"
proof -
  have "(toLowerChar c = toLowerChar d) = ((of_char (toLowerChar c) :: nat) = of_char (toLowerChar d))"
    by simp
  also have "\<dots> = case_variant c d"
    unfolding of_char_toLowerChar case_variant_def char_eq_nat [of c d]
    by (auto simp del: of_char_eq_iff)
  finally show ?thesis .
qed

lemma any_casing_upper: "any_casing_of base s = (map toUpperChar base = map toUpperChar s)"
  unfolding any_casing_of_def
  by (induction base s rule: list_induct2') (auto simp: toUpperChar_eq_iff)

lemma any_casing_lower: "any_casing_of base s = (map toLowerChar base = map toLowerChar s)"
  unfolding any_casing_of_def
  by (induction base s rule: list_induct2') (auto simp: toLowerChar_eq_iff)

lemma upper_voucher123: "map toUpperChar ''voucher123'' = ''VOUCHER123''"
  by code_simp
lemma upper_expired456: "map toUpperChar ''expired456'' = ''EXPIRED456''"
  by code_simp
lemma lower_active: "map toLowerChar ''active@example.com'' = ''active@example.com''"
  by code_simp
lemma lower_expired: "map toLowerChar ''expired@example.com'' = ''expired@example.com''"
  by code_simp



lemma voucher_block_string:
  "voucher_block (Some (JStr s)) =
     Inr (if any_casing_of ''voucher123'' s then
            Some (JObj [(''status'', JStr ''active''), (''discount'', JStr ''25%''),
                        (''expires'', JStr ''2024-12-31'')])
          else if any_casing_of ''expired456'' s then
            Some (JObj [(''status'', JStr ''expired''),
                        (''reason'', JStr ''Voucher has passed its expiry date.'')])
          else None)"
proof -
  have e: "\<not> any_casing_of ''voucher123'' []" "\<not> any_casing_of ''expired456'' []"
    by (simp_all add: any_casing_of_def)
  have u1: "any_casing_of ''voucher123'' s = (map toUpperChar s = ''VOUCHER123'')"
    unfolding any_casing_upper upper_voucher123 by auto
  have u2: "any_casing_of ''expired456'' s = (map toUpperChar s = ''EXPIRED456'')"
    unfolding any_casing_upper upper_expired456 by auto
  show ?thesis
  proof (cases "s = []")
    case True
    then show ?thesis using e by (simp add: voucher_block_def)
  next
    case False
    then show ?thesis unfolding u1 u2 by (simp add: voucher_block_def)
  qed
qed

lemma email_block_string:
  "email_block (Some (JStr s)) =
     Inr (if any_casing_of ''active@example.com'' s then
            Some (JObj [(''status'', JStr ''active''),
                        (''discount'', JStr ''10% loyalty voucher''),
                        (''expires'', JStr ''2025-01-31'')])
          else if any_casing_of ''expired@example.com'' s then
            Some (JObj [(''status'', JStr ''expired''),
                        (''reason'', JStr ''Voucher was a one-time use and has been redeemed.'')])
          else None)"
proof -
  have e: "\<not> any_casing_of ''active@example.com'' []" "\<not> any_casing_of ''expired@example.com'' []"
    by (simp_all add: any_casing_of_def)
  have u1: "any_casing_of ''active@example.com'' s = (map toLowerChar s = ''active@example.com'')"
    unfolding any_casing_lower lower_active by auto
  have u2: "any_casing_of ''expired@example.com'' s = (map toLowerChar s = ''expired@example.com'')"
    unfolding any_casing_lower lower_expired by auto
  show ?thesis
  proof (cases "s = []")
    case True
    then show ?thesis using e by (simp add: email_block_def)
  next
    case False
    then show ?thesis unfolding u1 u2 by (simp add: email_block_def)
  qed
qed

lemma voucher_block_absent: "voucher_block None = Inr None"
  by (simp add: voucher_block_def)

lemma email_block_absent: "email_block None = Inr None"
  by (simp add: email_block_def)

lemma fetchVoucherStatus_object:
  "fetchVoucherStatus (Some (JObj kvs)) =
     (case voucher_block (map_of kvs ''voucherId'') of
        Inl e \<Rightarrow> Inl e
      | Inr (Some r) \<Rightarrow> Inr r
      | Inr None \<Rightarrow>
          (case email_block (map_of kvs ''customerEmail'') of
             Inl e \<Rightarrow> Inl e
           | Inr (Some r) \<Rightarrow> Inr r
           | Inr None \<Rightarrow>
               Inr (JObj [(''status'', JStr ''not_found''),
                          (''message'', JStr ''No voucher could be found with the provided details.'')])))"
  by (simp add: fetchVoucherStatus_def)

section \<open>The voucher handler\<close>

lemma voucher_block_unknown: "unknown_voucherId v \<Longrightarrow> voucher_block v = Inr None"
  by (induction v rule: unknown_voucherId.induct) (simp_all add: voucher_block_string voucher_block_absent)

lemma email_block_unknown: "unknown_customerEmail v \<Longrightarrow> email_block v = Inr None"
  by (induction v rule: unknown_customerEmail.induct) (simp_all add: email_block_string email_block_absent)

lemma map_of_only_key:
  "map_of (filter (\<lambda>p. fst p = k) kvs) k' = (if k' = k then map_of kvs k' else None)"
  by (induction kvs) auto

lemma map_of_without_key:
  "map_of (filter (\<lambda>p. fst p \<noteq> k) kvs) k' = (if k' = k then None else map_of kvs k')"
  by (induction kvs) auto

text \<open>
  Claim C3. \<open>get_voucher_status\<close> matches its identifiers case-insensitively: every
  casing of the voucher code \<open>voucher123\<close> returns the active 25% payload; every
  casing of the address \<open>active@example.com\<close> returns the active loyalty-voucher
  payload when the voucher identifier names no known code; an argument object none of
  whose identifiers names a fixture, such as the empty object, returns the not-found
  payload.
\<close>

theorem get_voucher_status_case_insensitive:
  "(map_of kvs ''voucherId'' = Some (JStr s) \<and> any_casing_of ''voucher123'' s \<longrightarrow>
      fetchVoucherStatus (Some (JObj kvs)) =
        Inr (JObj [(''status'', JStr ''active''), (''discount'', JStr ''25%''),
                   (''expires'', JStr ''2024-12-31'')])) \<and>
   (unknown_voucherId (map_of kvs ''voucherId'') \<and>
    map_of kvs ''customerEmail'' = Some (JStr s) \<and> any_casing_of ''active@example.com'' s \<longrightarrow>
      fetchVoucherStatus (Some (JObj kvs)) =
        Inr (JObj [(''status'', JStr ''active''), (''discount'', JStr ''10% loyalty voucher''),
                   (''expires'', JStr ''2025-01-31'')])) \<and>
   (unknown_voucherId (map_of kvs ''voucherId'') \<and>
    unknown_customerEmail (map_of kvs ''customerEmail'') \<longrightarrow>
      fetchVoucherStatus (Some (JObj kvs)) =
        Inr (JObj [(''status'', JStr ''not_found''),
                   (''message'', JStr ''No voucher could be found with the provided details.'')])) \<and>
   fetchVoucherStatus (Some (JObj [])) =
     Inr (JObj [(''status'', JStr ''not_found''),
                (''message'', JStr ''No voucher could be found with the provided details.'')])"
  by (simp add: fetchVoucherStatus_object voucher_block_string email_block_string
        voucher_block_unknown email_block_unknown voucher_block_absent email_block_absent)

theorem get_voucher_status_case_insensitive_witness:
  "any_casing_of ''voucher123'' ''VoUcHeR123'' \<and>
   fetchVoucherStatus (Some (JObj [(''voucherId'', JStr ''VoUcHeR123'')])) =
     Inr (JObj [(''status'', JStr ''active''), (''discount'', JStr ''25%''),
                (''expires'', JStr ''2024-12-31'')]) \<and>
   any_casing_of ''active@example.com'' ''ACTIVE@example.com'' \<and>
   fetchVoucherStatus (Some (JObj [(''customerEmail'', JStr ''ACTIVE@example.com'')])) =
     Inr (JObj [(''status'', JStr ''active''), (''discount'', JStr ''10% loyalty voucher''),
                (''expires'', JStr ''2025-01-31'')]) \<and>
   unknown_voucherId (Some (JStr ''SUMMER10'')) \<and>
   unknown_customerEmail (Some (JStr ''nobody@example.com'')) \<and>
   fetchVoucherStatus (Some (JObj [(''voucherId'', JStr ''SUMMER10''),
                                   (''customerEmail'', JStr ''nobody@example.com'')])) =
     Inr (JObj [(''status'', JStr ''not_found''),
                (''message'', JStr ''No voucher could be found with the provided details.'')])"
proof -
  have a: "any_casing_of ''voucher123'' ''VoUcHeR123''"
    by (simp add: any_casing_of_def case_variant_def)
  have b: "any_casing_of ''active@example.com'' ''ACTIVE@example.com''"
    by (simp add: any_casing_of_def case_variant_def)
  have c: "unknown_voucherId (Some (JStr ''SUMMER10''))"
    by (simp add: any_casing_of_def)
  have d: "unknown_customerEmail (Some (JStr ''nobody@example.com''))"
    by (simp add: any_casing_of_def case_variant_def)
  show ?thesis
    using a b c d
      get_voucher_status_case_insensitive
        [of "[(''voucherId'', JStr ''VoUcHeR123'')]" "''VoUcHeR123''"]
      get_voucher_status_case_insensitive
        [of "[(''customerEmail'', JStr ''ACTIVE@example.com'')]" "''ACTIVE@example.com''"]
      get_voucher_status_case_insensitive
        [of "[(''voucherId'', JStr ''SUMMER10''), (''customerEmail'', JStr ''nobody@example.com'')]" "[]"]
    by simp
qed

text \<open>
  Claim C2, as stated, fails: a voucher identifier that is present but unknown does not
  end the lookup. With a matching address beside it the handler returns the payload of
  the address, not the not-found payload.
\<close>

theorem voucherId_strict_precedence_counterexample:
  "fetchVoucherStatus (Some (JObj [(''voucherId'', JStr ''SUMMER10''),
                                   (''customerEmail'', JStr ''active@example.com'')])) =
     Inr (JObj [(''status'', JStr ''active''), (''discount'', JStr ''10% loyalty voucher''),
                (''expires'', JStr ''2025-01-31'')]) \<and>
   fetchVoucherStatus (Some (JObj [(''voucherId'', JStr ''SUMMER10''),
                                   (''customerEmail'', JStr ''active@example.com'')])) \<noteq>
     Inr (JObj [(''status'', JStr ''not_found''),
                (''message'', JStr ''No voucher could be found with the provided details.'')])"
  by code_simp

text \<open>
  Claim C2, amended. The voucher identifier has precedence when it is a casing of a
  known code: the result is then the one of the argument object cut down to
  \<open>voucherId\<close>. When the voucher identifier is absent or a string that names no
  known code, the result is the one of the argument object cut down to
  \<open>customerEmail\<close>.
\<close>

theorem voucherId_precedence_when_known:
  "(map_of kvs ''voucherId'' = Some (JStr s) \<and>
    (any_casing_of ''voucher123'' s \<or> any_casing_of ''expired456'' s) \<longrightarrow>
      fetchVoucherStatus (Some (JObj kvs)) =
        fetchVoucherStatus (Some (JObj (filter (\<lambda>p. fst p = ''voucherId'') kvs)))) \<and>
   (unknown_voucherId (map_of kvs ''voucherId'') \<longrightarrow>
      fetchVoucherStatus (Some (JObj kvs)) =
        fetchVoucherStatus (Some (JObj (filter (\<lambda>p. fst p = ''customerEmail'') kvs))))"
  by (simp add: fetchVoucherStatus_object map_of_only_key voucher_block_string
        voucher_block_unknown voucher_block_absent)

theorem voucherId_precedence_when_known_witness:
  "any_casing_of ''expired456'' ''Expired456'' \<and>
   fetchVoucherStatus (Some (JObj [(''customerEmail'', JStr ''active@example.com''),
                                   (''voucherId'', JStr ''Expired456'')])) =
     fetchVoucherStatus (Some (JObj [(''voucherId'', JStr ''Expired456'')])) \<and>
   unknown_voucherId (Some (JStr ''SUMMER10'')) \<and>
   fetchVoucherStatus (Some (JObj [(''voucherId'', JStr ''SUMMER10''),
                                   (''customerEmail'', JStr ''active@example.com'')])) =
     fetchVoucherStatus (Some (JObj [(''customerEmail'', JStr ''active@example.com'')]))"
proof -
  have a: "any_casing_of ''expired456'' ''Expired456''"
    by (simp add: any_casing_of_def case_variant_def)
  have c: "unknown_voucherId (Some (JStr ''SUMMER10''))"
    by (simp add: any_casing_of_def)
  show ?thesis
    using a c
      voucherId_precedence_when_known
        [of "[(''customerEmail'', JStr ''active@example.com''), (''voucherId'', JStr ''Expired456'')]"
            "''Expired456''"]
      voucherId_precedence_when_known
        [of "[(''voucherId'', JStr ''SUMMER10''), (''customerEmail'', JStr ''active@example.com'')]" "[]"]
    by simp
qed

text \<open>
  Claim C10. An empty \<open>voucherId\<close> is treated as an absent one: the result is that
  of the argument object without the property. With the address
  \<open>active@example.com\<close> beside it the handler returns the loyalty-voucher payload,
  and with an empty address the not-found payload.
\<close>

theorem empty_voucherId_is_absent:
  "(map_of kvs ''voucherId'' = Some (JStr []) \<longrightarrow>
      fetchVoucherStatus (Some (JObj kvs)) =
        fetchVoucherStatus (Some (JObj (filter (\<lambda>p. fst p \<noteq> ''voucherId'') kvs)))) \<and>
   fetchVoucherStatus (Some (JObj [(''voucherId'', JStr []),
                                   (''customerEmail'', JStr ''active@example.com'')])) =
     Inr (JObj [(''status'', JStr ''active''), (''discount'', JStr ''10% loyalty voucher''),
                (''expires'', JStr ''2025-01-31'')]) \<and>
   fetchVoucherStatus (Some (JObj [(''voucherId'', JStr []), (''customerEmail'', JStr [])])) =
     Inr (JObj [(''status'', JStr ''not_found''),
                (''message'', JStr ''No voucher could be found with the provided details.'')])"
proof -
  have general:
    "map_of kvs ''voucherId'' = Some (JStr []) \<longrightarrow>
       fetchVoucherStatus (Some (JObj kvs)) =
         fetchVoucherStatus (Some (JObj (filter (\<lambda>p. fst p \<noteq> ''voucherId'') kvs)))"
    by (simp add: fetchVoucherStatus_object map_of_without_key voucher_block_def)
  have with_email:
    "fetchVoucherStatus (Some (JObj [(''voucherId'', JStr []),
                                     (''customerEmail'', JStr ''active@example.com'')])) =
       Inr (JObj [(''status'', JStr ''active''), (''discount'', JStr ''10% loyalty voucher''),
                  (''expires'', JStr ''2025-01-31'')])"
    by code_simp
  have both_empty:
    "fetchVoucherStatus (Some (JObj [(''voucherId'', JStr []), (''customerEmail'', JStr [])])) =
       Inr (JObj [(''status'', JStr ''not_found''),
                  (''message'', JStr ''No voucher could be found with the provided details.'')])"
    by code_simp
  show ?thesis
    by (rule conjI [OF general conjI [OF with_email both_empty]])
qed

theorem empty_voucherId_is_absent_witness:
  "map_of [(''voucherId'', JStr []), (''customerEmail'', JStr ''expired@example.com'')] ''voucherId'' =
     Some (JStr []) \<and>
   fetchVoucherStatus (Some (JObj [(''voucherId'', JStr []),
                                   (''customerEmail'', JStr ''expired@example.com'')])) =
     fetchVoucherStatus (Some (JObj [(''customerEmail'', JStr ''expired@example.com'')]))"
  using empty_voucherId_is_absent
    [of "[(''voucherId'', JStr []), (''customerEmail'', JStr ''expired@example.com'')]"]
  by simp

section \<open>The report handler\<close>

lemma of_char_digit_char: "0 \<le> d \<Longrightarrow> d < 10 \<Longrightarrow> (of_char (digit_char d) :: nat) = 48 + nat d"
  by (simp add: digit_char_def)

lemma is_digit_digit_char: "0 \<le> d \<Longrightarrow> d < 10 \<Longrightarrow> is_digit (digit_char d)"
  by (simp add: is_digit_def of_char_digit_char)

lemma show_digits_nonempty: "show_digits n \<noteq> []"
  by (subst show_digits.simps) simp

lemma show_digits_all_digits: "0 \<le> n \<Longrightarrow> list_all is_digit (show_digits n)"
proof (induction n rule: show_digits.induct)
  case (1 n)
  show ?case
  proof (cases "n < 10")
    case True
    with 1 show ?thesis
      by (subst show_digits.simps) (simp add: is_digit_digit_char)
  next
    case False
    with 1 show ?thesis
      by (subst show_digits.simps) (simp add: is_digit_digit_char)
  qed
qed

lemma digits_value_snoc: "digits_value (ds @ [c]) = 10 * digits_value ds + (int (of_char c) - 48)"
  by (simp add: digits_value_def)

lemma digits_value_show_digits: "0 \<le> n \<Longrightarrow> digits_value (show_digits n) = n"
proof (induction n rule: show_digits.induct)
  case (1 n)
  show ?case
  proof (cases "n < 10")
    case True
    with 1 show ?thesis
      by (subst show_digits.simps) (simp add: digits_value_def of_char_digit_char)
  next
    case False
    with 1 have "digits_value (show_digits (n div 10)) = n div 10"
      by simp
    then show ?thesis
      using 1(2) False
      by (subst show_digits.simps) (simp add: digits_value_snoc of_char_digit_char)
  qed
qed

lemma hd_show_digits: "0 < n \<Longrightarrow> hd (show_digits n) \<noteq> CHR ''0''"
proof (induction n rule: show_digits.induct)
  case (1 n)
  show ?case
  proof (cases "n < 10")
    case True
    have "(of_char (digit_char n) :: nat) \<noteq> of_char CHR ''0''"
      using True 1(2) by (simp add: of_char_digit_char)
    then have "digit_char n \<noteq> CHR ''0''"
      by auto
    with True show ?thesis
      by (subst show_digits.simps) simp
  next
    case False
    with 1 have "hd (show_digits (n div 10)) \<noteq> CHR ''0''"
      by simp
    with False show ?thesis
      by (subst show_digits.simps) (simp add: show_digits_nonempty)
  qed
qed

lemma minus_not_digit: "\<not> is_digit CHR ''-''"
  by (simp add: is_digit_def)

lemma show_digits_not_minus: "0 \<le> n \<Longrightarrow> CHR ''-'' # cs \<noteq> show_digits n"
  using show_digits_all_digits [of n] minus_not_digit by (cases "show_digits n") auto

lemma Number_toString_inj: "Number_toString a = Number_toString b \<Longrightarrow> a = b"
proof -
  assume eq: "Number_toString a = Number_toString b"
  consider "a < 0" "b < 0" | "a < 0" "0 \<le> b" | "0 \<le> a" "b < 0" | "0 \<le> a" "0 \<le> b"
    by linarith
  then show ?thesis
  proof cases
    case 1
    with eq have "show_digits (- a) = show_digits (- b)"
      by (simp add: Number_toString_def)
    then have "digits_value (show_digits (- a)) = digits_value (show_digits (- b))"
      by simp
    with 1 show ?thesis
      by (simp add: digits_value_show_digits)
  next
    case 2
    with eq show ?thesis
      using show_digits_not_minus [of b "show_digits (- a)"] by (simp add: Number_toString_def)
  next
    case 3
    with eq show ?thesis
      using show_digits_not_minus [of a "show_digits (- b)"] by (simp add: Number_toString_def)
  next
    case 4
    with eq have "digits_value (show_digits a) = digits_value (show_digits b)"
      by (simp add: Number_toString_def)
    with 4 show ?thesis
      by (simp add: digits_value_show_digits)
  qed
qed

lemma typeof_number_is_number: "typeof_number v = is_number v"
  by (induction v rule: is_number.induct) simp_all

lemma less_than_zero_below_zero: "less_than_zero v = number_below_zero v"
  by (induction v rule: number_below_zero.induct) simp_all

lemma submitDailyReport_object:
  "submitDailyReport now (Some (JObj kvs)) =
     (if \<not> is_number (map_of kvs ''issuedVouchers'') \<or>
         number_below_zero (map_of kvs ''issuedVouchers'')
      then
        Inr (JObj [(''status'', JStr ''error''),
                   (''message'', JStr ''Invalid number of issued vouchers.'')])
      else
        Inr (JObj [(''status'', JStr ''success''),
                   (''message'',
                      JStr (''Report successfully submitted with ID: '' @
                            (''report_'' @ Number_toString now) @ ''.'')),
                   (''reportId'', JStr (''report_'' @ Number_toString now)),
                   (''submittedData'', JObj kvs)]))"
  by (simp add: submitDailyReport_def Let_def typeof_number_is_number less_than_zero_below_zero)

text \<open>
  Claim C4. \<open>insert_daily_report\<close> validates \<open>issuedVouchers\<close>: for every
  argument object where it is not a number or is a number below zero the handler
  returns the error payload with its message; for every other argument object it
  returns the success payload, whose \<open>reportId\<close> is a non-empty string and whose
  \<open>submittedData\<close> is the argument object.
\<close>

theorem insert_daily_report_validation:
  "(\<not> is_number (map_of kvs ''issuedVouchers'') \<or> number_below_zero (map_of kvs ''issuedVouchers'') \<longrightarrow>
      submitDailyReport now (Some (JObj kvs)) =
        Inr (JObj [(''status'', JStr ''error''),
                   (''message'', JStr ''Invalid number of issued vouchers.'')])) \<and>
   (is_number (map_of kvs ''issuedVouchers'') \<and> \<not> number_below_zero (map_of kvs ''issuedVouchers'') \<longrightarrow>
      (\<exists>msg reportId.
         reportId \<noteq> [] \<and>
         submitDailyReport now (Some (JObj kvs)) =
           Inr (JObj [(''status'', JStr ''success''), (''message'', JStr msg),
                      (''reportId'', JStr reportId), (''submittedData'', JObj kvs)])))"
proof (cases "map_of kvs ''issuedVouchers''")
  case None
  then show ?thesis
    by (simp add: submitDailyReport_object)
next
  case (Some v)
  then show ?thesis
    by (cases v) (simp_all add: submitDailyReport_object)
qed

theorem insert_daily_report_validation_witness:
  "number_below_zero (map_of [(''issuedVouchers'', JNum (- 1))] ''issuedVouchers'') \<and>
   submitDailyReport 1730000000000 (Some (JObj [(''issuedVouchers'', JNum (- 1))])) =
     Inr (JObj [(''status'', JStr ''error''),
                (''message'', JStr ''Invalid number of issued vouchers.'')]) \<and>
   \<not> is_number (map_of [(''issuedVouchers'', JStr ''5'')] ''issuedVouchers'') \<and>
   submitDailyReport 1730000000000 (Some (JObj [(''issuedVouchers'', JStr ''5'')])) =
     Inr (JObj [(''status'', JStr ''error''),
                (''message'', JStr ''Invalid number of issued vouchers.'')]) \<and>
   is_number (map_of [(''issuedVouchers'', JNum 5)] ''issuedVouchers'') \<and>
   \<not> number_below_zero (map_of [(''issuedVouchers'', JNum 5)] ''issuedVouchers'') \<and>
   (\<exists>msg reportId.
      reportId \<noteq> [] \<and>
      submitDailyReport 1730000000000 (Some (JObj [(''issuedVouchers'', JNum 5)])) =
        Inr (JObj [(''status'', JStr ''success''), (''message'', JStr msg),
                   (''reportId'', JStr reportId),
                   (''submittedData'', JObj [(''issuedVouchers'', JNum 5)])]))"
  using
    insert_daily_report_validation [of "[(''issuedVouchers'', JNum (- 1))]" 1730000000000]
    insert_daily_report_validation [of "[(''issuedVouchers'', JStr ''5'')]" 1730000000000]
    insert_daily_report_validation [of "[(''issuedVouchers'', JNum 5)]" 1730000000000]
  by simp

section \<open>The dispatcher: order of completion\<close>

lemma results_of_Nil [simp]: "results_of f g [] [] = []"
  by (simp add: results_of_def)

lemma results_of_Cons [simp]:
  "results_of f g (c # cs) (t # ts) =
     function_response c (function_result f g t c) # results_of f g cs ts"
  by (simp add: results_of_def)

lemma results_of_append:
  "length cs = length ts \<Longrightarrow>
   results_of f g (cs @ cs') (ts @ ts') = results_of f g cs ts @ results_of f g cs' ts'"
  by (simp add: results_of_def)

lemma length_results_of: "length ts = length cs \<Longrightarrow> length (results_of f g cs ts) = length cs"
  by (simp add: results_of_def)

lemma map_fr_id_results_of:
  "length ts = length cs \<Longrightarrow> map fr_id (results_of f g cs ts) = map fc_id cs"
  by (induction cs ts rule: list_induct2') (simp_all add: function_response_def results_of_def)

lemma map_fr_name_results_of:
  "length ts = length cs \<Longrightarrow> map fr_name (results_of f g cs ts) = map fc_name cs"
  by (induction cs ts rule: list_induct2') (simp_all add: function_response_def results_of_def)

lemma function_result_fallback:
  "call_delay fc = None \<Longrightarrow> function_result f g now fc = JObj [(''result'', JStr ''ok'')]"
  by (simp add: call_delay_def function_result_def split: if_splits)

lemma results_of_fallback:
  "\<forall>fc \<in> set cs. call_delay fc = None \<Longrightarrow>
   results_of f g cs (replicate (length cs) t) =
     map (\<lambda>fc. function_response fc (JObj [(''result'', JStr ''ok'')])) cs"
  by (induction cs) (simp_all add: function_result_fallback)

subsection \<open>The synchronous pass\<close>

lemma start_call_responses:
  "functionResponses (foldl (start_call f g) s fcs) =
     functionResponses s @
     map (\<lambda>fc. function_response fc (JObj [(''result'', JStr ''ok'')]))
       (filter (\<lambda>fc. call_delay fc = None) fcs)"
  by (induction fcs arbitrary: s)
     (auto simp: start_call_def complete_call_def Let_def function_result_fallback
           split: option.splits)

lemma start_call_pending:
  "pending (foldl (start_call f g) s fcs) =
     pending s @ map timer_of (filter (\<lambda>fc. call_delay fc \<noteq> None) fcs)"
  by (induction fcs arbitrary: s)
     (auto simp: start_call_def complete_call_def Let_def timer_of_def split: option.splits)

lemma start_call_clock: "clock (foldl (start_call f g) s fcs) = clock s"
  by (induction fcs arbitrary: s)
     (auto simp: start_call_def complete_call_def Let_def split: option.splits)

subsection \<open>The timers\<close>

lemma take_out_split:
  "take_out P xs = Some (y, ys) \<Longrightarrow>
   \<exists>pre post. xs = pre @ y # post \<and> ys = pre @ post \<and> P y \<and> (\<forall>x \<in> set pre. \<not> P x)"
proof (induction xs arbitrary: y ys)
  case Nil
  then show ?case by simp
next
  case (Cons x xs)
  show ?case
  proof (cases "P x")
    case True
    with Cons.prems have "y = x" "ys = xs" by simp_all
    with True show ?thesis
      by (intro exI [of _ "[]"] exI [of _ xs]) simp
  next
    case False
    with Cons.prems obtain ys' where t: "take_out P xs = Some (y, ys')" and ys: "ys = x # ys'"
      by (auto split: option.splits)
    from Cons.IH [OF t] obtain pre post where
      "xs = pre @ y # post" "ys' = pre @ post" "P y" "\<forall>x \<in> set pre. \<not> P x"
      by blast
    with False ys show ?thesis
      by (intro exI [of _ "x # pre"] exI [of _ post]) simp
  qed
qed

lemma next_due_None: "next_due l ps = None \<Longrightarrow> ps = []"
  by (auto simp: next_due_def split: list.splits if_splits option.splits)

lemma next_due_split:
  assumes "next_due l ps = Some (t, rest)"
  shows "\<exists>pre post. ps = pre @ t # post \<and> rest = pre @ post \<and>
           (\<forall>x \<in> set pre. t_delay x \<noteq> t_delay t)"
proof (cases ps)
  case Nil
  with assms show ?thesis by (simp add: next_due_def)
next
  case (Cons p ps')
  show ?thesis
  proof (cases "l \<or> take_out (\<lambda>t. t_delay t < t_delay p) ps' = None")
    case True
    with assms Cons have "t = p" "rest = ps'"
      by (auto simp: next_due_def split: if_splits)
    with Cons show ?thesis
      by (intro exI [of _ "[]"] exI [of _ ps']) simp
  next
    case False
    then obtain y ys where y: "take_out (\<lambda>t. t_delay t < t_delay p) ps' = Some (y, ys)"
      by auto
    with assms Cons False have t: "t = y" "rest = p # ys"
      by (auto simp: next_due_def)
    from take_out_split [OF y] obtain pre post where
      "ps' = pre @ y # post" "ys = pre @ post" "t_delay y < t_delay p"
      "\<forall>x \<in> set pre. \<not> t_delay x < t_delay p"
      by blast
    with Cons t show ?thesis
      by (intro exI [of _ "p # pre"] exI [of _ post]) auto
  qed
qed

lemma run_timers_responses:
  "\<exists>fired nows.
     length nows = length fired \<and>
     mset fired = mset (pending s) \<and>
     (\<forall>d. filter (\<lambda>t. t_delay t = d) fired = filter (\<lambda>t. t_delay t = d) (pending s)) \<and>
     functionResponses (run_timers f g ticks s) =
       functionResponses s @ results_of f g (map t_call fired) nows"
proof (induction f g ticks s rule: run_timers.induct)
  case (1 f g ticks s)
  show ?case
  proof (cases "next_due (late (this_tick ticks)) (pending s)")
    case None
    then have "pending s = []" by (rule next_due_None)
    with None show ?thesis
      by (subst run_timers.simps) (simp add: exI [of _ "[]"])
  next
    case (Some a)
    obtain t rest where a: "a = (t, rest)" by (cases a)
    define s' where "s' = complete_call f g (t_call t)
       (s\<lparr>pending := rest, clock := clock s + int (elapsed (this_tick ticks))\<rparr>)"
    from "1.IH" [OF Some a [symmetric]] obtain fired nows where
      IH: "length nows = length fired" "mset fired = mset (pending s')"
          "\<forall>d. filter (\<lambda>t. t_delay t = d) fired = filter (\<lambda>t. t_delay t = d) (pending s')"
          "functionResponses (run_timers f g (tl ticks) s') =
             functionResponses s' @ results_of f g (map t_call fired) nows"
      unfolding s'_def by blast
    have ps': "pending s' = rest"
      by (simp add: s'_def complete_call_def)
    have fr': "functionResponses s' = functionResponses s @
        [function_response (t_call t)
           (function_result f g (clock s + int (elapsed (this_tick ticks))) (t_call t))]"
      by (simp add: s'_def complete_call_def)
    from next_due_split [OF Some [unfolded a]] obtain pre post where
      sp: "pending s = pre @ t # post" "rest = pre @ post"
          "\<forall>x \<in> set pre. t_delay x \<noteq> t_delay t"
      by blast
    have run: "run_timers f g ticks s = run_timers f g (tl ticks) s'"
      by (subst run_timers.simps) (simp add: Some a s'_def)
    have flt: "filter (\<lambda>x. t_delay x = d) (t # fired) = filter (\<lambda>x. t_delay x = d) (pending s)" for d
    proof -
      have "filter (\<lambda>x. t_delay x = d) fired = filter (\<lambda>x. t_delay x = d) (pre @ post)"
        using IH(3) ps' sp(2) by simp
      moreover have "t_delay t = d \<Longrightarrow> filter (\<lambda>x. t_delay x = d) pre = []"
        using sp(3) by (auto simp: filter_empty_conv)
      ultimately show ?thesis
        using sp(1) by auto
    qed
    show ?thesis
      apply (rule exI [of _ "t # fired"])
      apply (rule exI [of _ "(clock s + int (elapsed (this_tick ticks))) # nows"])
      using IH(1,2,4) ps' fr' sp(1,2) run flt
      by simp
  qed
qed

section \<open>JSON text: the round trip\<close>

subsection \<open>Strings\<close>

lemma hex_val_hex_char: "d < 16 \<Longrightarrow> hex_val (hex_char d) = Some d"
  by (auto simp: hex_val_def hex_char_def Let_def)

lemma hex_val_zero: "hex_val CHR ''0'' = Some 0"
  by (simp add: hex_val_def)

lemma parse_chars_escape: "parse_chars (escape_char c @ rest) = cons_char c (parse_chars rest)"
proof -
  consider
      "c = CHR 0x22" | "c = CHR 0x5C" | "c = CHR 0x08" | "c = CHR 0x0C" | "c = CHR 0x0A"
    | "c = CHR 0x0D" | "c = CHR 0x09"
    | "c \<noteq> CHR 0x22" "c \<noteq> CHR 0x5C" "c \<noteq> CHR 0x08" "c \<noteq> CHR 0x0C" "c \<noteq> CHR 0x0A"
      "c \<noteq> CHR 0x0D" "c \<noteq> CHR 0x09" "(of_char c :: nat) < 32"
    | "c \<noteq> CHR 0x22" "c \<noteq> CHR 0x5C" "\<not> (of_char c :: nat) < 32"
    by blast
  then show ?thesis
  proof cases
    case 8
    have d: "(of_char c :: nat) div 16 < 16" "(of_char c :: nat) mod 16 < 16"
      using 8(8) by simp_all
    have "char_of ((of_char c :: nat) div 16 * 16 + (of_char c :: nat) mod 16) = c"
      by simp
    moreover have "(of_char c :: nat) div 16 * 16 + (of_char c :: nat) mod 16 < 256"
      using 8(8) by simp
    ultimately show ?thesis
      using 8 d
      by (simp add: escape_char_def hex_val_hex_char hex_val_zero del: div_mult_mod_eq)
  next
    case 9
    have "escape_char c = [c]"
      using 9 by (auto simp: escape_char_def)
    with 9 show ?thesis by simp
  qed (simp_all add: escape_char_def unescape_def)
qed

lemma parse_chars_escaped:
  "parse_chars (concat (map escape_char s) @ CHR 0x22 # r) = Some (s, r)"
  by (induction s) (simp_all add: parse_chars_escape cons_char_def)

lemma parse_chars_quote: "parse_chars (tl (quote_string s) @ r) = Some (s, r)"
  by (simp add: quote_string_def parse_chars_escaped)

lemma quote_string_Cons: "quote_string s = CHR 0x22 # tl (quote_string s)"
  by (simp add: quote_string_def)

subsection \<open>Numbers\<close>

lemma set_show_digits: "0 \<le> n \<Longrightarrow> c \<in> set (show_digits n) \<Longrightarrow> is_digit c"
  using show_digits_all_digits [of n] by (simp add: list_all_iff)

lemma takeWhile_digits:
  "0 \<le> n \<Longrightarrow> number_end r \<Longrightarrow> takeWhile is_digit (show_digits n @ r) = show_digits n"
  by (cases r) (auto simp: number_end_def takeWhile_append2 set_show_digits)

lemma dropWhile_digits:
  "0 \<le> n \<Longrightarrow> number_end r \<Longrightarrow> dropWhile is_digit (show_digits n @ r) = r"
  by (cases r) (auto simp: number_end_def dropWhile_append2 set_show_digits)

lemma show_digits_zero: "show_digits 0 = ''0''"
  by code_simp

lemma show_digits_leading:
  "0 \<le> n \<Longrightarrow> \<not> (hd (show_digits n) = CHR ''0'' \<and> 1 < length (show_digits n))"
proof (cases "n = 0")
  case True
  then show ?thesis by (simp add: show_digits_zero)
next
  case False
  assume "0 \<le> n"
  with False have "0 < n" by simp
  then show ?thesis using hd_show_digits by simp
qed

lemma parse_digits_show_digits:
  assumes "0 \<le> n" "number_end r"
  shows "parse_digits (show_digits n @ r) = Some (show_digits n, r)"
  using assms show_digits_leading [OF assms(1)]
  by (simp add: parse_digits_def takeWhile_digits dropWhile_digits show_digits_nonempty Let_def)

lemma parse_fraction_end: "number_end r \<Longrightarrow> parse_fraction r = Some ([], r)"
  by (cases r) (simp_all add: parse_fraction_def number_end_def)

lemma parse_exponent_end: "number_end r \<Longrightarrow> parse_exponent r = Some (0, r)"
  by (cases r) (simp_all add: parse_exponent_def number_end_def)

lemma round_decimal_safe:
  assumes "0 \<le> m" "m \<le> 9007199254740991" "neg \<longrightarrow> m \<noteq> 0"
  shows "round_decimal neg m 0 = Some (JNum (if neg then - m else m))"
  using assms by (simp add: round_decimal_def)

lemma parse_number_toString:
  assumes "number_end r" "safe_integer i"
  shows "parse_number (Number_toString i @ r) = Some (JNum i, r)"
proof (cases "i < 0")
  case True
  then have m: "0 \<le> - i" "- i \<le> 9007199254740991" "- i \<noteq> 0"
    using assms(2) by (simp_all add: safe_integer_def)
  have "round_decimal True (- i) 0 = Some (JNum i)"
    using round_decimal_safe [of "- i" True] m by simp
  then show ?thesis
    using True assms(1) m(1)
    by (simp add: parse_number_def Number_toString_def parse_digits_show_digits
          parse_fraction_end parse_exponent_end digits_value_show_digits)
next
  case False
  then have n: "0 \<le> i" "i \<le> 9007199254740991"
    using assms(2) by (simp_all add: safe_integer_def)
  obtain c cs where s: "show_digits i = c # cs"
    using show_digits_nonempty [of i] by (cases "show_digits i") auto
  then have "c \<noteq> CHR ''-''"
    using show_digits_not_minus [OF n(1), of cs] by auto
  with s have h: "hd (show_digits i) \<noteq> CHR ''-''"
    by simp
  have "round_decimal False i 0 = Some (JNum i)"
    using round_decimal_safe [of i False] n by simp
  then show ?thesis
    using False assms(1) n(1) h
    by (simp add: parse_number_def Number_toString_def parse_digits_show_digits
          parse_fraction_end parse_exponent_end digits_value_show_digits
          show_digits_nonempty Let_def)
qed

lemma Number_toString_start: "\<exists>c cs. Number_toString i = c # cs \<and> number_start c"
proof (cases "i < 0")
  case True
  then show ?thesis by (simp add: Number_toString_def number_start_def)
next
  case False
  then have n: "0 \<le> i" by simp
  obtain c cs where s: "show_digits i = c # cs"
    using show_digits_nonempty [of i] by (cases "show_digits i") auto
  then have "is_digit c" using set_show_digits [OF n, of c] by simp
  with s False show ?thesis by (simp add: Number_toString_def number_start_def)
qed

subsection \<open>Values\<close>

lemma value_end_number_end: "value_end r \<Longrightarrow> number_end r"
  by (cases r) (auto simp: value_end_def number_end_def is_digit_def)

lemma value_end_simps [simp]:
  "value_end []" "value_end (CHR '','' # r)" "value_end (CHR '']'' # r)" "value_end (CHR ''}'' # r)"
  by (simp_all add: value_end_def)

lemma stringify_start: "\<exists>c cs. JSON_stringify v = c # cs \<and> value_start c"
proof (cases v)
  case (JNum i)
  then show ?thesis
    using Number_toString_start [of i] by (auto simp: value_start_def)
qed (auto simp: value_start_def number_start_def is_digit_def quote_string_def)

lemma stringify_nonempty: "JSON_stringify v \<noteq> []"
  using stringify_start [of v] by auto

lemma length_stringify: "1 \<le> length (JSON_stringify v)"
  using stringify_nonempty [of v] by (cases "JSON_stringify v") auto

lemma value_start_not_ws: "value_start c \<Longrightarrow> \<not> is_ws c"
  by (auto simp: value_start_def number_start_def is_digit_def is_ws_def)

lemma skip_ws_start: "value_start c \<Longrightarrow> skip_ws (c # cs) = c # cs"
  by (simp add: skip_ws_def value_start_not_ws)

lemma skip_ws_punct [simp]:
  "skip_ws (CHR '','' # r) = CHR '','' # r"
  "skip_ws (CHR '']'' # r) = CHR '']'' # r"
  "skip_ws (CHR ''}'' # r) = CHR ''}'' # r"
  "skip_ws (CHR '':'' # r) = CHR '':'' # r"
  "skip_ws (CHR 0x22 # r) = CHR 0x22 # r"
  "skip_ws [] = []"
  by (simp_all add: skip_ws_def is_ws_def)

lemma skip_ws_value_end: "value_end r \<Longrightarrow> skip_ws r = r"
  by (cases r) (auto simp: value_end_def)

lemma skip_ws_stringify: "skip_ws (JSON_stringify v @ r) = JSON_stringify v @ r"
  using stringify_start [of v] by (auto simp: skip_ws_start)

lemma parse_value_null: "parse_value (Suc n) (''null'' @ r) = Some (JNull, r)"
  by (simp add: skip_ws_def is_ws_def)

lemma parse_value_true: "parse_value (Suc n) (''true'' @ r) = Some (JBool True, r)"
  by (simp add: skip_ws_def is_ws_def)

lemma parse_value_false: "parse_value (Suc n) (''false'' @ r) = Some (JBool False, r)"
  by (simp add: skip_ws_def is_ws_def)

lemma parse_value_string: "parse_value (Suc n) (quote_string s @ r) = Some (JStr s, r)"
proof -
  have "parse_value (Suc n) (CHR 0x22 # tl (quote_string s) @ r) = Some (JStr s, r)"
    by (simp add: parse_chars_quote)
  then show ?thesis
    using quote_string_Cons [of s] by (metis append_Cons)
qed

lemma parse_value_number:
  assumes "value_end r" "safe_integer i"
  shows "parse_value (Suc n) (Number_toString i @ r) = Some (JNum i, r)"
proof -
  obtain c cs where s: "Number_toString i = c # cs" and st: "number_start c"
    using Number_toString_start [of i] by blast
  have ws: "skip_ws (c # cs @ r) = c # cs @ r"
    using st by (simp add: skip_ws_start value_start_def)
  have ne: "c \<noteq> CHR 0x22" "c \<noteq> CHR ''[''" "c \<noteq> CHR ''{''" "c \<noteq> CHR ''n''"
      "c \<noteq> CHR ''t''" "c \<noteq> CHR ''f''"
    using st by (auto simp: number_start_def is_digit_def)
  have pn: "parse_number (c # cs @ r) = Some (JNum i, r)"
    using parse_number_toString [OF value_end_number_end [OF assms(1)] assms(2)] s by simp
  show ?thesis
    unfolding s using ws ne pn by simp
qed

lemma set_prop_new: "k \<notin> fst ` set acc \<Longrightarrow> set_prop k v acc = acc @ [(k, v)]"
  by (induction acc) auto

lemma elements_start:
  "vs \<noteq> [] \<Longrightarrow> \<exists>c cs. stringify_elements vs = c # cs \<and> value_start c"
proof (cases vs)
  case (Cons v ws)
  obtain c cs where "JSON_stringify v = c # cs" "value_start c"
    using stringify_start [of v] by blast
  with Cons show ?thesis by (cases ws) auto
qed simp

lemma members_start:
  "kvs \<noteq> [] \<Longrightarrow> \<exists>cs. stringify_members kvs = CHR 0x22 # cs"
proof (cases kvs)
  case (Cons p ps)
  obtain k v where "p = (k, v)" by (cases p)
  with Cons show ?thesis by (cases ps) (auto simp: quote_string_def)
qed simp

lemma value_start_not_close: "value_start c \<Longrightarrow> c \<noteq> CHR '']''"
  by (auto simp: value_start_def number_start_def is_digit_def)

lemma parse_value_array:
  assumes "vs \<noteq> []"
  shows "parse_value (Suc n) (CHR ''['' # stringify_elements vs @ r) =
     (case parse_elements n (stringify_elements vs @ r) of
        None \<Rightarrow> None
      | Some (ws, r') \<Rightarrow> Some (JArr ws, r'))"
proof -
  obtain c cs where s: "stringify_elements vs = c # cs" and st: "value_start c"
    using elements_start [OF assms] by blast
  have "skip_ws (c # cs @ r) = c # cs @ r"
    using st by (simp add: skip_ws_start)
  then show ?thesis
    unfolding s using value_start_not_close [OF st]
    by (simp add: skip_ws_def is_ws_def)
qed

lemma parse_value_object:
  assumes "kvs \<noteq> []"
  shows "parse_value (Suc n) (CHR ''{'' # stringify_members kvs @ r) =
     (case parse_members n [] (stringify_members kvs @ r) of
        None \<Rightarrow> None
      | Some (ws, r') \<Rightarrow> Some (JObj ws, r'))"
proof -
  obtain cs where s: "stringify_members kvs = CHR 0x22 # cs"
    using members_start [OF assms] by blast
  show ?thesis
    unfolding s by (simp add: skip_ws_def is_ws_def)
qed

lemma parse_value_empty_array: "parse_value (Suc n) (''[]'' @ r) = Some (JArr [], r)"
  by (simp add: skip_ws_def is_ws_def)

lemma parse_value_empty_object: "parse_value (Suc n) (''{}'' @ r) = Some (JObj [], r)"
  by (simp add: skip_ws_def is_ws_def)

lemma parse_elements_step:
  assumes "parse_value n (JSON_stringify v @ c # r) = Some (v, c # r)"
    and "c = CHR '','' \<or> c = CHR '']''"
  shows "parse_elements (Suc n) (JSON_stringify v @ c # r) =
     (if c = CHR '','' then
        (case parse_elements n r of None \<Rightarrow> None | Some (vs, r'') \<Rightarrow> Some (v # vs, r''))
      else if c = CHR '']'' then Some ([v], r)
      else None)"
  using assms by auto

lemma parse_members_step:
  assumes "parse_value n (JSON_stringify v @ c # r) = Some (v, c # r)"
    and "c = CHR '','' \<or> c = CHR ''}''"
  shows "parse_members (Suc n) acc (quote_string k @ CHR '':'' # JSON_stringify v @ c # r) =
     (if c = CHR '','' then parse_members n (set_prop k v acc) r
      else Some (set_prop k v acc, r))"
proof -
  have "parse_members (Suc n) acc
          (CHR 0x22 # tl (quote_string k) @ CHR '':'' # JSON_stringify v @ c # r) =
     (if c = CHR '','' then parse_members n (set_prop k v acc) r
      else Some (set_prop k v acc, r))"
    using assms by (auto simp: parse_chars_quote)
  then show ?thesis
    using quote_string_Cons [of k] by (metis append_Cons)
qed

lemma roundtrip:
  "exact_json v \<longrightarrow>
     (\<forall>n r. length (JSON_stringify v) \<le> n \<longrightarrow> value_end r \<longrightarrow>
        parse_value n (JSON_stringify v @ r) = Some (v, r))"
  "vs \<noteq> [] \<longrightarrow> list_all exact_json vs \<longrightarrow>
     (\<forall>n r. Suc (length (stringify_elements vs)) \<le> n \<longrightarrow>
        parse_elements n (stringify_elements vs @ CHR '']'' # r) = Some (vs, r))"
  "kvs \<noteq> [] \<longrightarrow> list_all (\<lambda>p. exact_json (snd p)) kvs \<longrightarrow>
     (\<forall>n acc r. distinct (map fst (acc @ kvs)) \<longrightarrow> Suc (length (stringify_members kvs)) \<le> n \<longrightarrow>
        parse_members n acc (stringify_members kvs @ CHR ''}'' # r) = Some (acc @ kvs, r))"
proof (induction v and vs and kvs rule: JSON_stringify_stringify_elements_stringify_members.induct)
  case 1
  show ?case
  proof (intro impI allI)
    fix n r assume "length (JSON_stringify JNull) \<le> n"
    then obtain m where "n = Suc m" by (cases n) auto
    then show "parse_value n (JSON_stringify JNull @ r) = Some (JNull, r)"
      using parse_value_null [of m r] by simp
  qed
next
  case (2 b)
  show ?case
  proof (intro impI allI)
    fix n r assume "length (JSON_stringify (JBool b)) \<le> n"
    then obtain m where "n = Suc m" by (cases n) (auto split: if_splits)
    then show "parse_value n (JSON_stringify (JBool b) @ r) = Some (JBool b, r)"
      using parse_value_true [of m r] parse_value_false [of m r] by (cases b) simp_all
  qed
next
  case (3 i)
  show ?case
  proof (intro impI allI)
    fix n r assume ex: "exact_json (JNum i)"
      and "length (JSON_stringify (JNum i)) \<le> n" and e: "value_end r"
    then obtain m where "n = Suc m"
      using length_stringify [of "JNum i"] by (cases n) auto
    moreover have "safe_integer i"
      using ex by simp
    ultimately show "parse_value n (JSON_stringify (JNum i) @ r) = Some (JNum i, r)"
      using parse_value_number [OF e, of i m] by simp
  qed
next
  case 4
  show ?case by simp
next
  case 5
  show ?case by simp
next
  case 6
  show ?case by simp
next
  case (7 s)
  show ?case
  proof (intro impI allI)
    fix n r assume "length (JSON_stringify (JStr s)) \<le> n"
    then obtain m where "n = Suc m"
      using length_stringify [of "JStr s"] by (cases n) auto
    then show "parse_value n (JSON_stringify (JStr s) @ r) = Some (JStr s, r)"
      using parse_value_string [of m s r] by simp
  qed
next
  case (8 vs)
  show ?case
  proof (intro impI allI)
    fix n r assume wf: "exact_json (JArr vs)" and len: "length (JSON_stringify (JArr vs)) \<le> n"
    from len obtain m where n: "n = Suc m" by (cases n) auto
    show "parse_value n (JSON_stringify (JArr vs) @ r) = Some (JArr vs, r)"
    proof (cases "vs = []")
      case True
      then show ?thesis
        using parse_value_empty_array [of m r] n by simp
    next
      case False
      have "Suc (length (stringify_elements vs)) \<le> m"
        using len n by simp
      with 8 False wf
      have "parse_elements m (stringify_elements vs @ CHR '']'' # r) = Some (vs, r)"
        by simp
      then show ?thesis
        using parse_value_array [OF False, of m "CHR '']'' # r"] n by simp
    qed
  qed
next
  case (9 kvs)
  show ?case
  proof (intro impI allI)
    fix n r assume wf: "exact_json (JObj kvs)" and len: "length (JSON_stringify (JObj kvs)) \<le> n"
    from len obtain m where n: "n = Suc m" by (cases n) auto
    show "parse_value n (JSON_stringify (JObj kvs) @ r) = Some (JObj kvs, r)"
    proof (cases "kvs = []")
      case True
      then show ?thesis
        using parse_value_empty_object [of m r] n by simp
    next
      case False
      have l: "Suc (length (stringify_members kvs)) \<le> m"
        using len n by simp
      have d: "distinct (map fst ([] @ kvs))"
        using wf by simp
      have la: "list_all (\<lambda>p. exact_json (snd p)) kvs"
        using wf by simp
      have "parse_members m [] (stringify_members kvs @ CHR ''}'' # r) = Some ([] @ kvs, r)"
        by (rule 9 [rule_format, OF False la d l])
      then show ?thesis
        using parse_value_object [OF False, of m "CHR ''}'' # r"] n by simp
    qed
  qed
next
  case 10
  show ?case by simp
next
  case (11 v)
  show ?case
  proof (intro impI allI)
    fix n r
    assume wf: "list_all exact_json [v]" and len: "Suc (length (stringify_elements [v])) \<le> n"
    from len obtain m where n: "n = Suc m" by (cases n) auto
    have "parse_value m (JSON_stringify v @ CHR '']'' # r) = Some (v, CHR '']'' # r)"
      using 11 wf len n by simp
    then show "parse_elements n (stringify_elements [v] @ CHR '']'' # r) = Some ([v], r)"
      using parse_elements_step [of m v "CHR '']''" r] n by simp
  qed
next
  case (12 v w vs)
  show ?case
  proof (intro impI allI)
    fix n r
    assume wf: "list_all exact_json (v # w # vs)"
      and len: "Suc (length (stringify_elements (v # w # vs))) \<le> n"
    from len obtain m where n: "n = Suc m" by (cases n) auto
    have l1: "length (JSON_stringify v) \<le> m"
      using len n by simp
    have l2: "Suc (length (stringify_elements (w # vs))) \<le> m"
      using len n length_stringify [of v] by simp
    have pv: "parse_value m (JSON_stringify v @ CHR '','' # stringify_elements (w # vs) @ CHR '']'' # r) =
        Some (v, CHR '','' # stringify_elements (w # vs) @ CHR '']'' # r)"
      using 12(1) wf l1 by simp
    have pe: "parse_elements m (stringify_elements (w # vs) @ CHR '']'' # r) = Some (w # vs, r)"
      using 12(2) wf l2 by simp
    show "parse_elements n (stringify_elements (v # w # vs) @ CHR '']'' # r) = Some (v # w # vs, r)"
      using parse_elements_step [OF pv] pe n by simp
  qed
next
  case 13
  show ?case by simp
next
  case (14 k v)
  show ?case
  proof (intro impI allI)
    fix n acc r
    assume wf: "list_all (\<lambda>p. exact_json (snd p)) [(k, v)]"
      and d: "distinct (map fst (acc @ [(k, v)]))"
      and len: "Suc (length (stringify_members [(k, v)])) \<le> n"
    from len obtain m where n: "n = Suc m" by (cases n) auto
    have l1: "length (JSON_stringify v) \<le> m"
      using len n by simp
    have pv: "parse_value m (JSON_stringify v @ CHR ''}'' # r) = Some (v, CHR ''}'' # r)"
      using 14 wf l1 by simp
    have sp: "set_prop k v acc = acc @ [(k, v)]"
      using d by (intro set_prop_new) auto
    show "parse_members n acc (stringify_members [(k, v)] @ CHR ''}'' # r) = Some (acc @ [(k, v)], r)"
      using parse_members_step [OF pv, of acc k] sp n by simp
  qed
next
  case (15 k v m ms)
  show ?case
  proof (intro impI allI)
    fix n acc r
    assume wf: "list_all (\<lambda>p. exact_json (snd p)) ((k, v) # m # ms)"
      and d: "distinct (map fst (acc @ (k, v) # m # ms))"
      and len: "Suc (length (stringify_members ((k, v) # m # ms))) \<le> n"
    from len obtain n' where n: "n = Suc n'" by (cases n) auto
    have l1: "length (JSON_stringify v) \<le> n'"
      using len n by simp
    have l2: "Suc (length (stringify_members (m # ms))) \<le> n'"
      using len n length_stringify [of v] by simp
    have pv: "parse_value n' (JSON_stringify v @ CHR '','' # stringify_members (m # ms) @ CHR ''}'' # r) =
        Some (v, CHR '','' # stringify_members (m # ms) @ CHR ''}'' # r)"
      using 15(1) wf l1 by simp
    have sp: "set_prop k v acc = acc @ [(k, v)]"
      using d by (intro set_prop_new) auto
    have d': "distinct (map fst ((acc @ [(k, v)]) @ m # ms))"
      using d by simp
    have la: "list_all (\<lambda>p. exact_json (snd p)) (m # ms)"
      using wf by simp
    have pm: "parse_members n' (acc @ [(k, v)]) (stringify_members (m # ms) @ CHR ''}'' # r) =
        Some ((acc @ [(k, v)]) @ m # ms, r)"
      by (rule 15(2) [rule_format, OF _ la d' l2]) simp
    show "parse_members n acc (stringify_members ((k, v) # m # ms) @ CHR ''}'' # r) =
        Some (acc @ (k, v) # m # ms, r)"
      using parse_members_step [OF pv, of acc k] sp pm n by simp
  qed
qed

lemma JSON_roundtrip: "exact_json v \<Longrightarrow> JSON_parse (JSON_stringify v) = Some v"
proof -
  assume wf: "exact_json v"
  have "parse_value (Suc (length (JSON_stringify v))) (JSON_stringify v @ []) = Some (v, [])"
    by (rule roundtrip(1) [rule_format, OF wf]) simp_all
  then show ?thesis
    unfolding JSON_parse_def by (simp del: parse_value.simps)
qed

lemma exact_json_iff: "exact_json v = (wf_json v \<and> no_minus_zero_or_infinity v)"
  by (induction v) (fastforce simp: list_all_iff)+

section \<open>The dispatcher: the batch sent\<close>

lemma t_call_timer_of [simp]: "t_call (timer_of fc) = fc"
  by (simp add: timer_of_def)

lemma t_delay_timer_of: "call_delay fc \<noteq> None \<Longrightarrow> (t_delay (timer_of fc) = d) = (call_delay fc = Some d)"
  by (auto simp: timer_of_def)

lemma onToolCall_with_sent:
  "\<exists>delayed nows.
     length nows = length delayed \<and>
     mset delayed = mset (filter (\<lambda>fc. call_delay fc \<noteq> None) batch) \<and>
     (\<forall>d. filter (\<lambda>fc. call_delay fc = Some d) delayed =
          filter (\<lambda>fc. call_delay fc = Some d) batch) \<and>
     sent (onToolCall_with f g t0 ticks batch) =
       map (\<lambda>fc. function_response fc (JObj [(''result'', JStr ''ok'')]))
         (filter (\<lambda>fc. call_delay fc = None) batch) @
       results_of f g delayed nows"
proof -
  define s0 :: dispatch_state where
    "s0 = \<lparr>functionResponses = [], turns = [], pending = [], clock = t0\<rparr>"
  define s1 where "s1 = foldl (start_call f g) s0 batch"
  define X where "X = filter (\<lambda>fc. call_delay fc \<noteq> None) batch"
  have p1: "pending s1 = map timer_of X"
    by (simp add: s1_def s0_def X_def start_call_pending)
  have r1: "functionResponses s1 =
      map (\<lambda>fc. function_response fc (JObj [(''result'', JStr ''ok'')]))
        (filter (\<lambda>fc. call_delay fc = None) batch)"
    by (simp add: s1_def s0_def start_call_responses)
  from run_timers_responses [of s1 f g ticks] obtain fired nows where
    f: "length nows = length fired" "mset fired = mset (pending s1)"
       "\<forall>d. filter (\<lambda>t. t_delay t = d) fired = filter (\<lambda>t. t_delay t = d) (pending s1)"
       "functionResponses (run_timers f g ticks s1) =
          functionResponses s1 @ results_of f g (map t_call fired) nows"
    by blast
  have sent: "sent (onToolCall_with f g t0 ticks batch) = functionResponses (run_timers f g ticks s1)"
    by (simp add: onToolCall_with_def Let_def s1_def s0_def)
  have m: "mset (map t_call fired) = mset X"
  proof -
    have "mset (map t_call fired) = image_mset t_call (mset fired)" by simp
    also have "\<dots> = image_mset t_call (mset (map timer_of X))" using f(2) p1 by simp
    also have "\<dots> = mset X" by (simp add: image_mset.compositionality comp_def)
    finally show ?thesis .
  qed
  have inX: "t \<in> set fired \<Longrightarrow> \<exists>fc \<in> set X. t = timer_of fc" for t
  proof -
    assume "t \<in> set fired"
    then have "t \<in># mset fired" by simp
    then have "t \<in># mset (map timer_of X)" using f(2) p1 by simp
    then show ?thesis by auto
  qed
  have dl: "t \<in> set fired \<Longrightarrow> (call_delay (t_call t) = Some d) = (t_delay t = d)" for t d
  proof -
    assume "t \<in> set fired"
    from inX [OF this] obtain fc where "fc \<in> set X" "t = timer_of fc" by blast
    then show ?thesis by (simp add: X_def t_delay_timer_of)
  qed
  have flt: "filter (\<lambda>fc. call_delay fc = Some d) (map t_call fired) =
      filter (\<lambda>fc. call_delay fc = Some d) batch" for d
  proof -
    have "filter (\<lambda>fc. call_delay fc = Some d) (map t_call fired) =
        map t_call (filter (\<lambda>t. call_delay (t_call t) = Some d) fired)"
      by (simp add: filter_map comp_def)
    also have "\<dots> = map t_call (filter (\<lambda>t. t_delay t = d) fired)"
      using dl by (metis (mono_tags, lifting) filter_cong)
    also have "\<dots> = map t_call (filter (\<lambda>t. t_delay t = d) (map timer_of X))"
      using f(3) p1 by simp
    also have "\<dots> = map t_call (map timer_of (filter (\<lambda>fc. t_delay (timer_of fc) = d) X))"
      by (simp add: filter_map comp_def)
    also have "\<dots> = filter (\<lambda>fc. t_delay (timer_of fc) = d) X"
      by (simp add: comp_def)
    also have "\<dots> = filter (\<lambda>fc. call_delay fc = Some d) X"
      by (rule filter_cong) (auto simp: X_def t_delay_timer_of)
    also have "\<dots> = filter (\<lambda>fc. call_delay fc = Some d) batch"
      unfolding X_def by (induction batch) auto
    finally show ?thesis .
  qed
  show ?thesis
    apply (rule exI [of _ "map t_call fired"])
    apply (rule exI [of _ nows])
    using f(1,4) m flt sent r1
    by (simp add: X_def)
qed

lemma in_results_of:
  "r \<in> set (results_of f g cs ns) \<Longrightarrow>
   \<exists>fc \<in> set cs. \<exists>now. r = function_response fc (function_result f g now fc)"
  unfolding results_of_def by (auto dest: set_zip_leftD)

lemma results_of_member:
  "length ns = length cs \<Longrightarrow> fc \<in> set cs \<Longrightarrow>
   \<exists>now. function_response fc (function_result f g now fc) \<in> set (results_of f g cs ns)"
proof (induction cs ns rule: list_induct2')
  case (4 c cs n ns)
  show ?case
  proof (cases "fc = c")
    case True
    then show ?thesis
      by (intro exI [of _ n]) simp
  next
    case False
    with 4 obtain now where
      "function_response fc (function_result f g now fc) \<in> set (results_of f g cs ns)"
      by auto
    then show ?thesis
      by (intro exI [of _ now]) simp
  qed
qed simp_all

lemma onToolCall_with_results:
  "\<exists>calls nows.
     length nows = length calls \<and>
     mset calls = mset batch \<and>
     take (length (filter (\<lambda>fc. call_delay fc = None) batch)) calls =
       filter (\<lambda>fc. call_delay fc = None) batch \<and>
     (\<forall>d. filter (\<lambda>fc. call_delay fc = d) calls = filter (\<lambda>fc. call_delay fc = d) batch) \<and>
     sent (onToolCall_with f g t0 ticks batch) = results_of f g calls nows"
proof -
  define fb where "fb = filter (\<lambda>fc. call_delay fc = None) batch"
  from onToolCall_with_sent [of batch f g t0 ticks] obtain delayed nows where
    d: "length nows = length delayed"
       "mset delayed = mset (filter (\<lambda>fc. call_delay fc \<noteq> None) batch)"
       "\<forall>d. filter (\<lambda>fc. call_delay fc = Some d) delayed =
            filter (\<lambda>fc. call_delay fc = Some d) batch"
       "sent (onToolCall_with f g t0 ticks batch) =
          map (\<lambda>fc. function_response fc (JObj [(''result'', JStr ''ok'')])) fb @
          results_of f g delayed nows"
    unfolding fb_def by blast
  have fb_all: "\<forall>fc \<in> set fb. call_delay fc = None"
    by (simp add: fb_def)
  have del_all: "\<forall>fc \<in> set delayed. call_delay fc \<noteq> None"
  proof
    fix fc assume "fc \<in> set delayed"
    then have "fc \<in># mset delayed" by simp
    then have "fc \<in># mset (filter (\<lambda>fc. call_delay fc \<noteq> None) batch)" using d(2) by simp
    then show "call_delay fc \<noteq> None" by simp
  qed
  have res: "results_of f g (fb @ delayed) (replicate (length fb) t0 @ nows) =
      map (\<lambda>fc. function_response fc (JObj [(''result'', JStr ''ok'')])) fb @
      results_of f g delayed nows"
    using fb_all by (simp add: results_of_append results_of_fallback)
  have ms: "mset (fb @ delayed) = mset batch"
    using d(2) by (simp add: fb_def)
  have flt: "filter (\<lambda>fc. call_delay fc = x) (fb @ delayed) =
      filter (\<lambda>fc. call_delay fc = x) batch" for x
  proof (cases x)
    case None
    have "filter (\<lambda>fc. call_delay fc = None) delayed = []"
      using del_all by (simp add: filter_empty_conv)
    with None show ?thesis by (simp add: fb_def)
  next
    case (Some a)
    have "filter (\<lambda>fc. call_delay fc = Some a) fb = []"
      using fb_all by (simp add: filter_empty_conv)
    with Some d(3) show ?thesis by simp
  qed
  show ?thesis
    apply (rule exI [of _ "fb @ delayed"])
    apply (rule exI [of _ "replicate (length fb) t0 @ nows"])
    using d(1,4) res ms flt
    by (simp add: fb_def)
qed

text \<open>
  Claim C1. For every batch of N requests the dispatcher sends exactly N results. The
  results are the entries of a rearrangement of the batch, one for each request, built
  from the request and the value the chain of handlers gave for it (the payload of the
  \<open>catch\<close> when the handler raised), so each result carries the id of the request
  it comes from.
\<close>

theorem one_result_per_request:
  "\<exists>calls nows.
     mset calls = mset functionCalls \<and>
     length nows = length calls \<and>
     sent (onToolCall t0 ticks functionCalls) =
       results_of fetchVoucherStatus submitDailyReport calls nows \<and>
     length (sent (onToolCall t0 ticks functionCalls)) = length functionCalls \<and>
     map fr_id (sent (onToolCall t0 ticks functionCalls)) = map fc_id calls"
proof -
  from onToolCall_with_results [of functionCalls fetchVoucherStatus submitDailyReport t0 ticks]
  obtain calls nows where
    c: "length nows = length calls" "mset calls = mset functionCalls"
       "sent (onToolCall t0 ticks functionCalls) =
          results_of fetchVoucherStatus submitDailyReport calls nows"
    unfolding onToolCall_def by blast
  have "length calls = length functionCalls"
    using c(2) by (metis size_mset)
  with c show ?thesis
    by (intro exI [of _ calls] exI [of _ nows])
       (simp add: length_results_of map_fr_id_results_of)
qed

lemma parse_fetch_error_payload:
  "JSON_parse (JSON_stringify (JObj [(''error'', JStr ''An error occurred while fetching the voucher status.'')])) =
     Some (JObj [(''error'', JStr ''An error occurred while fetching the voucher status.'')])"
  by code_simp

lemma parse_submit_error_payload:
  "JSON_parse (JSON_stringify (JObj [(''error'', JStr ''An error occurred while submitting the daily report.'')])) =
     Some (JObj [(''error'', JStr ''An error occurred while submitting the daily report.'')])"
  by code_simp

lemma function_response_fields:
  "fr_id (function_response fc v) = fc_id fc"
  "fr_name (function_response fc v) = fc_name fc"
  "result (fr_response (function_response fc v)) = JSON_stringify v"
  by (simp_all add: function_response_def)

text \<open>
  Claim C5. Whatever the two handlers do, a fault raised inside one is caught: the
  batch sent has one entry per request; a \<open>get_voucher_status\<close> call whose handler
  raises has an entry with its id and name whose string \<open>response.result\<close> parses
  to the error payload of that branch, likewise for \<open>insert_daily_report\<close>; and
  every request of the batch, faulty or not, has its own entry, with its id and name,
  in the batch sent.
\<close>

theorem handler_fault_becomes_error_payload:
  "length (sent (onToolCall_with fetch submit t0 ticks batch)) = length batch \<and>
   (\<forall>fc \<in> set batch.
      fc_name fc = ''get_voucher_status'' \<and> fetch (fc_args fc) = Inl TypeError \<longrightarrow>
      function_response fc
        (JObj [(''error'', JStr ''An error occurred while fetching the voucher status.'')])
        \<in> set (sent (onToolCall_with fetch submit t0 ticks batch)) \<and>
      (\<exists>r \<in> set (sent (onToolCall_with fetch submit t0 ticks batch)).
         fr_id r = fc_id fc \<and> fr_name r = fc_name fc \<and>
         JSON_parse (result (fr_response r)) =
           Some (JObj [(''error'', JStr ''An error occurred while fetching the voucher status.'')]))) \<and>
   (\<forall>fc \<in> set batch.
      fc_name fc = ''insert_daily_report'' \<and> (\<forall>now. submit now (fc_args fc) = Inl TypeError) \<longrightarrow>
      function_response fc
        (JObj [(''error'', JStr ''An error occurred while submitting the daily report.'')])
        \<in> set (sent (onToolCall_with fetch submit t0 ticks batch)) \<and>
      (\<exists>r \<in> set (sent (onToolCall_with fetch submit t0 ticks batch)).
         fr_id r = fc_id fc \<and> fr_name r = fc_name fc \<and>
         JSON_parse (result (fr_response r)) =
           Some (JObj [(''error'', JStr ''An error occurred while submitting the daily report.'')]))) \<and>
   (\<forall>fc \<in> set batch.
      (\<exists>now. function_response fc (function_result fetch submit now fc)
         \<in> set (sent (onToolCall_with fetch submit t0 ticks batch))) \<and>
      (\<exists>r \<in> set (sent (onToolCall_with fetch submit t0 ticks batch)).
         fr_id r = fc_id fc \<and> fr_name r = fc_name fc))"
proof -
  from onToolCall_with_results [of batch fetch submit t0 ticks]
  obtain calls nows where
    c: "length nows = length calls" "mset calls = mset batch"
       "sent (onToolCall_with fetch submit t0 ticks batch) = results_of fetch submit calls nows"
    by blast
  have len: "length calls = length batch"
    using c(2) by (metis size_mset)
  have mem: "\<exists>now. function_response fc (function_result fetch submit now fc)
      \<in> set (sent (onToolCall_with fetch submit t0 ticks batch))" if "fc \<in> set batch" for fc
  proof -
    from that c(2) have "fc \<in> set calls" by (metis set_mset_mset)
    from results_of_member [OF c(1) this] show ?thesis
      unfolding c(3) .
  qed
  have own: "\<exists>r \<in> set (sent (onToolCall_with fetch submit t0 ticks batch)).
      fr_id r = fc_id fc \<and> fr_name r = fc_name fc" if "fc \<in> set batch" for fc
  proof -
    from mem [OF that] obtain now where
      "function_response fc (function_result fetch submit now fc)
         \<in> set (sent (onToolCall_with fetch submit t0 ticks batch))" by blast
    then show ?thesis
      by (rule bexI [rotated]) (simp add: function_response_fields)
  qed
  have a: "function_response fc
        (JObj [(''error'', JStr ''An error occurred while fetching the voucher status.'')])
        \<in> set (sent (onToolCall_with fetch submit t0 ticks batch))"
    if "fc \<in> set batch" "fc_name fc = ''get_voucher_status''" "fetch (fc_args fc) = Inl TypeError" for fc
  proof -
    from mem [OF that(1)] obtain now where
      "function_response fc (function_result fetch submit now fc)
         \<in> set (sent (onToolCall_with fetch submit t0 ticks batch))" by blast
    moreover have "function_result fetch submit now fc =
        JObj [(''error'', JStr ''An error occurred while fetching the voucher status.'')]"
      using that(2,3) by (simp add: function_result_def)
    ultimately show ?thesis by simp
  qed
  have a': "\<exists>r \<in> set (sent (onToolCall_with fetch submit t0 ticks batch)).
         fr_id r = fc_id fc \<and> fr_name r = fc_name fc \<and>
         JSON_parse (result (fr_response r)) =
           Some (JObj [(''error'', JStr ''An error occurred while fetching the voucher status.'')])"
    if "fc \<in> set batch" "fc_name fc = ''get_voucher_status''" "fetch (fc_args fc) = Inl TypeError" for fc
    by (rule bexI [OF _ a [OF that]])
       (simp only: function_response_fields parse_fetch_error_payload simp_thms)
  have b: "function_response fc
        (JObj [(''error'', JStr ''An error occurred while submitting the daily report.'')])
        \<in> set (sent (onToolCall_with fetch submit t0 ticks batch))"
    if "fc \<in> set batch" "fc_name fc = ''insert_daily_report''"
       "\<forall>now. submit now (fc_args fc) = Inl TypeError" for fc
  proof -
    from mem [OF that(1)] obtain now where
      "function_response fc (function_result fetch submit now fc)
         \<in> set (sent (onToolCall_with fetch submit t0 ticks batch))" by blast
    moreover have "function_result fetch submit now fc =
        JObj [(''error'', JStr ''An error occurred while submitting the daily report.'')]"
      using that(2,3) by (simp add: function_result_def)
    ultimately show ?thesis by simp
  qed
  have b': "\<exists>r \<in> set (sent (onToolCall_with fetch submit t0 ticks batch)).
         fr_id r = fc_id fc \<and> fr_name r = fc_name fc \<and>
         JSON_parse (result (fr_response r)) =
           Some (JObj [(''error'', JStr ''An error occurred while submitting the daily report.'')])"
    if "fc \<in> set batch" "fc_name fc = ''insert_daily_report''"
       "\<forall>now. submit now (fc_args fc) = Inl TypeError" for fc
    by (rule bexI [OF _ b [OF that]])
       (simp only: function_response_fields parse_submit_error_payload simp_thms)
  have l: "length (sent (onToolCall_with fetch submit t0 ticks batch)) = length batch"
    using c(1,3) len by (simp add: length_results_of)
  show ?thesis
    using l a a' b b' mem own by blast
qed

theorem handler_fault_becomes_error_payload_witness:
  "fetchVoucherStatus None = Inl TypeError \<and>
   (\<exists>r \<in> set (sent (onToolCall_with fetchVoucherStatus submitDailyReport 1730000000000 []
          [\<lparr>fc_id = ''call-1'', fc_name = ''get_voucher_status'', fc_args = None\<rparr>,
           \<lparr>fc_id = ''call-2'', fc_name = ''insert_daily_report'', fc_args = None\<rparr>,
           \<lparr>fc_id = ''call-3'', fc_name = ''get_voucher_status'',
             fc_args = Some (JObj [(''voucherId'', JStr ''VOUCHER123'')])\<rparr>])).
      fr_id r = ''call-1'' \<and> fr_name r = ''get_voucher_status'' \<and>
      JSON_parse (result (fr_response r)) =
        Some (JObj [(''error'', JStr ''An error occurred while fetching the voucher status.'')])) \<and>
   (\<exists>r \<in> set (sent (onToolCall_with fetchVoucherStatus submitDailyReport 1730000000000 []
          [\<lparr>fc_id = ''call-1'', fc_name = ''get_voucher_status'', fc_args = None\<rparr>,
           \<lparr>fc_id = ''call-2'', fc_name = ''insert_daily_report'', fc_args = None\<rparr>,
           \<lparr>fc_id = ''call-3'', fc_name = ''get_voucher_status'',
             fc_args = Some (JObj [(''voucherId'', JStr ''VOUCHER123'')])\<rparr>])).
      fr_id r = ''call-2'' \<and> fr_name r = ''insert_daily_report'' \<and>
      JSON_parse (result (fr_response r)) =
        Some (JObj [(''error'', JStr ''An error occurred while submitting the daily report.'')])) \<and>
   (\<exists>r \<in> set (sent (onToolCall_with fetchVoucherStatus submitDailyReport 1730000000000 []
          [\<lparr>fc_id = ''call-1'', fc_name = ''get_voucher_status'', fc_args = None\<rparr>,
           \<lparr>fc_id = ''call-2'', fc_name = ''insert_daily_report'', fc_args = None\<rparr>,
           \<lparr>fc_id = ''call-3'', fc_name = ''get_voucher_status'',
             fc_args = Some (JObj [(''voucherId'', JStr ''VOUCHER123'')])\<rparr>])).
      fr_id r = ''call-3'' \<and> fr_name r = ''get_voucher_status'') \<and>
   length (sent (onToolCall_with fetchVoucherStatus submitDailyReport 1730000000000 []
          [\<lparr>fc_id = ''call-1'', fc_name = ''get_voucher_status'', fc_args = None\<rparr>,
           \<lparr>fc_id = ''call-2'', fc_name = ''insert_daily_report'', fc_args = None\<rparr>,
           \<lparr>fc_id = ''call-3'', fc_name = ''get_voucher_status'',
             fc_args = Some (JObj [(''voucherId'', JStr ''VOUCHER123'')])\<rparr>])) = 3"
proof -
  have f: "fetchVoucherStatus None = Inl TypeError"
    by (simp add: fetchVoucherStatus_def)
  have s: "\<forall>now. submitDailyReport now None = Inl TypeError"
    by (simp add: submitDailyReport_def)
  show ?thesis
    using f s
      handler_fault_becomes_error_payload
        [of fetchVoucherStatus submitDailyReport 1730000000000 "[]"
            "[\<lparr>fc_id = ''call-1'', fc_name = ''get_voucher_status'', fc_args = None\<rparr>,
           \<lparr>fc_id = ''call-2'', fc_name = ''insert_daily_report'', fc_args = None\<rparr>,
           \<lparr>fc_id = ''call-3'', fc_name = ''get_voucher_status'',
             fc_args = Some (JObj [(''voucherId'', JStr ''VOUCHER123'')])\<rparr>]"]
    by simp
qed

lemma parse_ok_payload:
  "JSON_parse (JSON_stringify (JObj [(''result'', JStr ''ok'')])) = Some (JObj [(''result'', JStr ''ok'')])"
  by code_simp

text \<open>
  Claim C6. Every request whose name is neither \<open>get_voucher_status\<close> nor
  \<open>insert_daily_report\<close> gets the entry with the payload \<open>{result: 'ok'}\<close>,
  and every entry sent under such a name parses to exactly that object.
\<close>

theorem unknown_tool_default_ok:
  "(\<forall>fc \<in> set batch.
      fc_name fc \<noteq> ''get_voucher_status'' \<and> fc_name fc \<noteq> ''insert_daily_report'' \<longrightarrow>
      function_response fc (JObj [(''result'', JStr ''ok'')])
        \<in> set (sent (onToolCall t0 ticks batch))) \<and>
   (\<forall>r \<in> set (sent (onToolCall t0 ticks batch)).
      fr_name r \<noteq> ''get_voucher_status'' \<and> fr_name r \<noteq> ''insert_daily_report'' \<longrightarrow>
      JSON_parse (result (fr_response r)) = Some (JObj [(''result'', JStr ''ok'')]))"
proof -
  from onToolCall_with_results [of batch fetchVoucherStatus submitDailyReport t0 ticks]
  obtain calls nows where
    c: "length nows = length calls" "mset calls = mset batch"
       "sent (onToolCall t0 ticks batch) =
          results_of fetchVoucherStatus submitDailyReport calls nows"
    unfolding onToolCall_def by blast
  have a: "function_response fc (JObj [(''result'', JStr ''ok'')])
        \<in> set (sent (onToolCall t0 ticks batch))"
    if "fc \<in> set batch" "fc_name fc \<noteq> ''get_voucher_status''"
       "fc_name fc \<noteq> ''insert_daily_report''" for fc
  proof -
    from that(1) c(2) have "fc \<in> set calls" by (metis set_mset_mset)
    from results_of_member [OF c(1) this] obtain now where
      "function_response fc (function_result fetchVoucherStatus submitDailyReport now fc)
         \<in> set (sent (onToolCall t0 ticks batch))"
      unfolding c(3) by blast
    moreover have "function_result fetchVoucherStatus submitDailyReport now fc =
        JObj [(''result'', JStr ''ok'')]"
      using that(2,3) by (simp add: function_result_def)
    ultimately show ?thesis by simp
  qed
  have b: "JSON_parse (result (fr_response r)) = Some (JObj [(''result'', JStr ''ok'')])"
    if "r \<in> set (sent (onToolCall t0 ticks batch))" "fr_name r \<noteq> ''get_voucher_status''"
       "fr_name r \<noteq> ''insert_daily_report''" for r
  proof -
    from that(1) in_results_of obtain fc now where
      r: "r = function_response fc (function_result fetchVoucherStatus submitDailyReport now fc)"
      unfolding c(3) by blast
    then have "fr_name r = fc_name fc"
      by (simp add: function_response_def)
    with that(2,3) have "function_result fetchVoucherStatus submitDailyReport now fc =
        JObj [(''result'', JStr ''ok'')]"
      by (simp add: function_result_def)
    with r have "result (fr_response r) = JSON_stringify (JObj [(''result'', JStr ''ok'')])"
      by (simp add: function_response_def)
    then show ?thesis
      by (simp only: parse_ok_payload)
  qed
  show ?thesis
    using a b by blast
qed

theorem unknown_tool_default_ok_witness:
  "function_response
     \<lparr>fc_id = ''call-1'', fc_name = ''claim_refund'',
       fc_args = Some (JObj [(''voucherId'', JStr ''VOUCHER123''), (''reason'', JStr ''unused'')])\<rparr>
     (JObj [(''result'', JStr ''ok'')])
     \<in> set (sent (onToolCall 1730000000000 []
          [\<lparr>fc_id = ''call-1'', fc_name = ''claim_refund'',
             fc_args = Some (JObj [(''voucherId'', JStr ''VOUCHER123''), (''reason'', JStr ''unused'')])\<rparr>,
           \<lparr>fc_id = ''call-2'', fc_name = ''no_such_tool'', fc_args = None\<rparr>])) \<and>
   function_response
     \<lparr>fc_id = ''call-2'', fc_name = ''no_such_tool'', fc_args = None\<rparr>
     (JObj [(''result'', JStr ''ok'')])
     \<in> set (sent (onToolCall 1730000000000 []
          [\<lparr>fc_id = ''call-1'', fc_name = ''claim_refund'',
             fc_args = Some (JObj [(''voucherId'', JStr ''VOUCHER123''), (''reason'', JStr ''unused'')])\<rparr>,
           \<lparr>fc_id = ''call-2'', fc_name = ''no_such_tool'', fc_args = None\<rparr>]))"
  using unknown_tool_default_ok
    [of "[\<lparr>fc_id = ''call-1'', fc_name = ''claim_refund'',
             fc_args = Some (JObj [(''voucherId'', JStr ''VOUCHER123''), (''reason'', JStr ''unused'')])\<rparr>,
           \<lparr>fc_id = ''call-2'', fc_name = ''no_such_tool'', fc_args = None\<rparr>]"
        1730000000000 "[]"]
  by simp

text \<open>
  Claim C8, as stated, fails: a request of the fallback branch completes while the
  callbacks are still being started, a request of a handler only when its timer fires.
  A batch of a \<open>get_voucher_status\<close> call followed by a \<open>claim_refund\<close> call
  is answered in the opposite order.
\<close>

theorem request_order_counterexample:
  "map fc_id
     [\<lparr>fc_id = ''call-1'', fc_name = ''get_voucher_status'',
        fc_args = Some (JObj [(''voucherId'', JStr ''VOUCHER123'')])\<rparr>,
      \<lparr>fc_id = ''call-2'', fc_name = ''claim_refund'',
        fc_args = Some (JObj [(''voucherId'', JStr ''VOUCHER123''), (''reason'', JStr ''unused'')])\<rparr>] =
     [''call-1'', ''call-2''] \<and>
   map fr_id (sent (onToolCall 1730000000000 [\<lparr>late = False, elapsed = 800\<rparr>]
     [\<lparr>fc_id = ''call-1'', fc_name = ''get_voucher_status'',
        fc_args = Some (JObj [(''voucherId'', JStr ''VOUCHER123'')])\<rparr>,
      \<lparr>fc_id = ''call-2'', fc_name = ''claim_refund'',
        fc_args = Some (JObj [(''voucherId'', JStr ''VOUCHER123''), (''reason'', JStr ''unused'')])\<rparr>])) =
     [''call-2'', ''call-1'']"
  by code_simp

text \<open>
  Claim C8, amended. The batch sent holds the results in the order in which the calls
  complete: it answers a rearrangement of the batch that starts with the requests of
  the fallback branch in request order, and in which the requests that reach the same
  delay (the same handler) keep their request order. When all requests of the batch
  reach the same delay, the rearrangement is the batch itself.
\<close>

theorem results_in_completion_order:
  "\<exists>calls nows.
     length nows = length calls \<and>
     mset calls = mset batch \<and>
     sent (onToolCall t0 ticks batch) =
       results_of fetchVoucherStatus submitDailyReport calls nows \<and>
     map fr_id (sent (onToolCall t0 ticks batch)) = map fc_id calls \<and>
     take (length (filter (\<lambda>fc. call_delay fc = None) batch)) calls =
       filter (\<lambda>fc. call_delay fc = None) batch \<and>
     (\<forall>d. filter (\<lambda>fc. call_delay fc = d) calls = filter (\<lambda>fc. call_delay fc = d) batch) \<and>
     ((\<forall>fc \<in> set batch. call_delay fc = d0) \<longrightarrow> calls = batch)"
proof -
  from onToolCall_with_results [of batch fetchVoucherStatus submitDailyReport t0 ticks]
  obtain calls nows where
    c: "length nows = length calls" "mset calls = mset batch"
       "take (length (filter (\<lambda>fc. call_delay fc = None) batch)) calls =
          filter (\<lambda>fc. call_delay fc = None) batch"
       "\<forall>d. filter (\<lambda>fc. call_delay fc = d) calls = filter (\<lambda>fc. call_delay fc = d) batch"
       "sent (onToolCall t0 ticks batch) =
          results_of fetchVoucherStatus submitDailyReport calls nows"
    unfolding onToolCall_def by blast
  have same: "calls = batch" if "\<forall>fc \<in> set batch. call_delay fc = d0"
  proof -
    have "set calls = set batch" using c(2) by (metis set_mset_mset)
    with that have "\<forall>fc \<in> set calls. call_delay fc = d0" by simp
    then have "filter (\<lambda>fc. call_delay fc = d0) calls = calls" by simp
    moreover have "filter (\<lambda>fc. call_delay fc = d0) batch = batch" using that by simp
    ultimately show ?thesis using c(4) by metis
  qed
  show ?thesis
    apply (rule exI [of _ calls])
    apply (rule exI [of _ nows])
    using c same by (simp add: map_fr_id_results_of)
qed

theorem results_in_completion_order_witness:
  "call_delay \<lparr>fc_id = ''call-1'', fc_name = ''get_voucher_status'',
               fc_args = Some (JObj [(''voucherId'', JStr ''VOUCHER123'')])\<rparr> = Some 800 \<and>
   call_delay \<lparr>fc_id = ''call-2'', fc_name = ''get_voucher_status'',
               fc_args = Some (JObj [(''customerEmail'', JStr ''active@example.com'')])\<rparr> = Some 800 \<and>
   map fr_id (sent (onToolCall 1730000000000 [\<lparr>late = True, elapsed = 800\<rparr>]
     [\<lparr>fc_id = ''call-1'', fc_name = ''get_voucher_status'',
        fc_args = Some (JObj [(''voucherId'', JStr ''VOUCHER123'')])\<rparr>,
      \<lparr>fc_id = ''call-2'', fc_name = ''get_voucher_status'',
        fc_args = Some (JObj [(''customerEmail'', JStr ''active@example.com'')])\<rparr>])) =
     [''call-1'', ''call-2'']"
  using results_in_completion_order
    [of "[\<lparr>fc_id = ''call-1'', fc_name = ''get_voucher_status'',
            fc_args = Some (JObj [(''voucherId'', JStr ''VOUCHER123'')])\<rparr>,
          \<lparr>fc_id = ''call-2'', fc_name = ''get_voucher_status'',
            fc_args = Some (JObj [(''customerEmail'', JStr ''active@example.com'')])\<rparr>]"
        1730000000000 "[\<lparr>late = True, elapsed = 800\<rparr>]" "Some 800"]
  by (auto simp: call_delay_def)

lemma exact_fetchVoucherStatus: "fetchVoucherStatus a = Inr r \<Longrightarrow> exact_json r"
  by (auto simp: fetchVoucherStatus_def voucher_block_def email_block_def Let_def
           split: option.splits json.splits if_splits sum.splits)

lemma exact_submitDailyReport:
  "submitDailyReport now (Some a) = Inr r \<Longrightarrow> exact_json a \<Longrightarrow> exact_json r"
  by (auto simp: submitDailyReport_def Let_def split: option.splits json.splits if_splits)

lemma submitDailyReport_None: "submitDailyReport now None = Inl TypeError"
  by (simp add: submitDailyReport_def)

lemma exact_function_result:
  assumes "wf_args fc"
    and "fc_name fc \<noteq> ''insert_daily_report'' \<or> exact_args fc"
  shows "exact_json (function_result fetchVoucherStatus submitDailyReport now fc)"
proof -
  have a: "exact_json r" if "fetchVoucherStatus (fc_args fc) = Inr r" for r
    using that by (rule exact_fetchVoucherStatus)
  have b: "exact_json r"
    if "fc_name fc = ''insert_daily_report''" "submitDailyReport now (fc_args fc) = Inr r" for r
  proof (cases "fc_args fc")
    case None
    with that show ?thesis by (simp add: submitDailyReport_None)
  next
    case (Some x)
    with assms that(1) have "exact_json x"
      by (simp add: wf_args_def exact_args_def exact_json_iff)
    with that Some show ?thesis using exact_submitDailyReport by simp
  qed
  show ?thesis
    using a b by (auto simp: function_result_def split: sum.splits)
qed

lemma nth_results_of:
  "length ns = length cs \<Longrightarrow> i < length cs \<Longrightarrow>
   results_of f g cs ns ! i = function_response (cs ! i) (function_result f g (ns ! i) (cs ! i))"
  by (simp add: results_of_def)

text \<open>
  Claim C7, as stated, fails: \<open>JSON.parse\<close> gives \<open>Infinity\<close> for the literal
  \<open>1e999\<close> and \<open>-0\<close> for the literal \<open>-0\<close>; both are numbers and not below
  zero, so \<open>insert_daily_report\<close> echoes them in \<open>submittedData\<close>, where
  \<open>JSON.stringify\<close> prints \<open>null\<close> and \<open>0\<close>. The result string does not parse
  back to the object the handler returned.
\<close>

theorem result_string_round_trip_counterexample:
  "JSON_parse (''{'' @ quote_string ''issuedVouchers'' @ '':1e999}'') =
     Some (JObj [(''issuedVouchers'', JInfinity)]) \<and>
   function_result fetchVoucherStatus submitDailyReport 1730000000600
     \<lparr>fc_id = ''call-1'', fc_name = ''insert_daily_report'',
       fc_args = Some (JObj [(''issuedVouchers'', JInfinity)])\<rparr> =
     JObj [(''status'', JStr ''success''),
           (''message'', JStr ''Report successfully submitted with ID: report_1730000000600.''),
           (''reportId'', JStr ''report_1730000000600''),
           (''submittedData'', JObj [(''issuedVouchers'', JInfinity)])] \<and>
   JSON_parse (result (fr_response (hd (sent (onToolCall 1730000000000
     [\<lparr>late = False, elapsed = 600\<rparr>]
     [\<lparr>fc_id = ''call-1'', fc_name = ''insert_daily_report'',
       fc_args = Some (JObj [(''issuedVouchers'', JInfinity)])\<rparr>]))))) =
     Some (JObj [(''status'', JStr ''success''),
                 (''message'', JStr ''Report successfully submitted with ID: report_1730000000600.''),
                 (''reportId'', JStr ''report_1730000000600''),
                 (''submittedData'', JObj [(''issuedVouchers'', JNull)])]) \<and>
   JSON_parse (''{'' @ quote_string ''issuedVouchers'' @ '':-0}'') =
     Some (JObj [(''issuedVouchers'', JNegZero)]) \<and>
   function_result fetchVoucherStatus submitDailyReport 1730000000600
     \<lparr>fc_id = ''call-1'', fc_name = ''insert_daily_report'',
       fc_args = Some (JObj [(''issuedVouchers'', JNegZero)])\<rparr> =
     JObj [(''status'', JStr ''success''),
           (''message'', JStr ''Report successfully submitted with ID: report_1730000000600.''),
           (''reportId'', JStr ''report_1730000000600''),
           (''submittedData'', JObj [(''issuedVouchers'', JNegZero)])] \<and>
   JSON_parse (result (fr_response (hd (sent (onToolCall 1730000000000
     [\<lparr>late = False, elapsed = 600\<rparr>]
     [\<lparr>fc_id = ''call-1'', fc_name = ''insert_daily_report'',
       fc_args = Some (JObj [(''issuedVouchers'', JNegZero)])\<rparr>]))))) =
     Some (JObj [(''status'', JStr ''success''),
                 (''message'', JStr ''Report successfully submitted with ID: report_1730000000600.''),
                 (''reportId'', JStr ''report_1730000000600''),
                 (''submittedData'', JObj [(''issuedVouchers'', JNum 0)])])"
  by code_simp

text \<open>
  Claim C7, amended. When the arguments of the requests are JavaScript values, the
  batch sent answers a rearrangement of the batch, and for every request of it other
  than an \<open>insert_daily_report\<close> call whose arguments hold \<open>-0\<close> or an infinite
  number, parsing the string \<open>response.result\<close> of its entry gives back exactly
  the object that the handler, the \<open>catch\<close> or the fallback branch produced for it.
\<close>

theorem result_string_round_trip:
  assumes "\<forall>fc \<in> set batch. wf_args fc"
  shows "\<exists>calls nows.
     mset calls = mset batch \<and> length nows = length calls \<and>
     sent (onToolCall t0 ticks batch) =
       results_of fetchVoucherStatus submitDailyReport calls nows \<and>
     (\<forall>i < length calls.
        fc_name (calls ! i) \<noteq> ''insert_daily_report'' \<or> exact_args (calls ! i) \<longrightarrow>
        JSON_parse (result (fr_response (sent (onToolCall t0 ticks batch) ! i))) =
          Some (function_result fetchVoucherStatus submitDailyReport (nows ! i) (calls ! i)))"
proof -
  from onToolCall_with_results [of batch fetchVoucherStatus submitDailyReport t0 ticks]
  obtain calls nows where
    c: "length nows = length calls" "mset calls = mset batch"
       "sent (onToolCall t0 ticks batch) =
          results_of fetchVoucherStatus submitDailyReport calls nows"
    unfolding onToolCall_def by blast
  have "set calls = set batch" using c(2) by (metis set_mset_mset)
  with assms have wf: "\<forall>fc \<in> set calls. wf_args fc" by simp
  have "JSON_parse (result (fr_response (sent (onToolCall t0 ticks batch) ! i))) =
      Some (function_result fetchVoucherStatus submitDailyReport (nows ! i) (calls ! i))"
    if i: "i < length calls"
      and e: "fc_name (calls ! i) \<noteq> ''insert_daily_report'' \<or> exact_args (calls ! i)" for i
  proof -
    have "wf_args (calls ! i)"
      using wf i by simp
    then have "exact_json
        (function_result fetchVoucherStatus submitDailyReport (nows ! i) (calls ! i))"
      using e by (rule exact_function_result)
    then show ?thesis
      unfolding c(3) nth_results_of [OF c(1) i]
      by (simp add: function_response_def JSON_roundtrip)
  qed
  with c show ?thesis
    by (intro exI [of _ calls] exI [of _ nows]) simp
qed

theorem result_string_round_trip_witness:
  "wf_args
     \<lparr>fc_id = ''call-1'', fc_name = ''insert_daily_report'',
       fc_args = Some (JObj [(''issuedVouchers'', JNum 5),
                             (''partnershipVouchers'',
                                JArr [JObj [(''partnerName'', JStr ''Acme''),
                                            (''voucherCount'', JNum 2)]]),
                             (''issuesNote'', JStr ''none'')])\<rparr> \<and>
   exact_args
     \<lparr>fc_id = ''call-1'', fc_name = ''insert_daily_report'',
       fc_args = Some (JObj [(''issuedVouchers'', JNum 5),
                             (''partnershipVouchers'',
                                JArr [JObj [(''partnerName'', JStr ''Acme''),
                                            (''voucherCount'', JNum 2)]]),
                             (''issuesNote'', JStr ''none'')])\<rparr> \<and>
   (\<exists>now.
      JSON_parse (result (fr_response (sent (onToolCall 1730000000000 []
        [\<lparr>fc_id = ''call-1'', fc_name = ''insert_daily_report'',
       fc_args = Some (JObj [(''issuedVouchers'', JNum 5),
                             (''partnershipVouchers'',
                                JArr [JObj [(''partnerName'', JStr ''Acme''),
                                            (''voucherCount'', JNum 2)]]),
                             (''issuesNote'', JStr ''none'')])\<rparr>]) ! 0))) =
      Some (function_result fetchVoucherStatus submitDailyReport now
        \<lparr>fc_id = ''call-1'', fc_name = ''insert_daily_report'',
       fc_args = Some (JObj [(''issuedVouchers'', JNum 5),
                             (''partnershipVouchers'',
                                JArr [JObj [(''partnerName'', JStr ''Acme''),
                                            (''voucherCount'', JNum 2)]]),
                             (''issuesNote'', JStr ''none'')])\<rparr>))"
proof -
  define fc where "fc =
     \<lparr>fc_id = ''call-1'', fc_name = ''insert_daily_report'',
       fc_args = Some (JObj [(''issuedVouchers'', JNum 5),
                             (''partnershipVouchers'',
                                JArr [JObj [(''partnerName'', JStr ''Acme''),
                                            (''voucherCount'', JNum 2)]]),
                             (''issuesNote'', JStr ''none'')])\<rparr>"
  have w: "wf_args fc"
    by (simp add: fc_def wf_args_def safe_integer_def)
  have x: "exact_args fc"
    by (simp add: fc_def exact_args_def)
  from w have "\<forall>c \<in> set [fc]. wf_args c"
    by simp
  from result_string_round_trip [OF this, of 1730000000000 "[]"]
  obtain calls nows where
    c: "mset calls = mset [fc]" "length nows = length calls"
       "\<forall>i < length calls.
          fc_name (calls ! i) \<noteq> ''insert_daily_report'' \<or> exact_args (calls ! i) \<longrightarrow>
          JSON_parse (result (fr_response (sent (onToolCall 1730000000000 [] [fc]) ! i))) =
            Some (function_result fetchVoucherStatus submitDailyReport (nows ! i) (calls ! i))"
    by blast
  from c(1) have calls: "calls = [fc]"
    by (metis mset.simps(1) mset.simps(2) mset_single_iff_right)
  with c(3) x have
    "JSON_parse (result (fr_response (sent (onToolCall 1730000000000 [] [fc]) ! 0))) =
       Some (function_result fetchVoucherStatus submitDailyReport (nows ! 0) fc)"
    by simp
  then have "\<exists>now.
      JSON_parse (result (fr_response (sent (onToolCall 1730000000000 [] [fc]) ! 0))) =
      Some (function_result fetchVoucherStatus submitDailyReport now fc)"
    by blast
  with w x show ?thesis
    unfolding fc_def by blast
qed

section \<open>Report identifiers\<close>

text \<open>
  Claim C9, as stated, fails: the identifier is made of the clock reading alone, so two
  successful submissions within the same millisecond, such as two calls of one batch,
  get the same \<open>reportId\<close>.
\<close>

theorem reportId_unique_counterexample:
  "submitDailyReport 1730000000000 (Some (JObj [(''issuedVouchers'', JNum 5)])) =
     Inr (JObj [(''status'', JStr ''success''),
                (''message'', JStr ''Report successfully submitted with ID: report_1730000000000.''),
                (''reportId'', JStr ''report_1730000000000''),
                (''submittedData'', JObj [(''issuedVouchers'', JNum 5)])]) \<and>
   submitDailyReport 1730000000000 (Some (JObj [(''issuedVouchers'', JNum 7)])) =
     Inr (JObj [(''status'', JStr ''success''),
                (''message'', JStr ''Report successfully submitted with ID: report_1730000000000.''),
                (''reportId'', JStr ''report_1730000000000''),
                (''submittedData'', JObj [(''issuedVouchers'', JNum 7)])]) \<and>
   map reportId_of (sent (onToolCall 1729999999400
       [\<lparr>late = False, elapsed = 600\<rparr>, \<lparr>late = False, elapsed = 0\<rparr>]
     [\<lparr>fc_id = ''call-1'', fc_name = ''insert_daily_report'',
        fc_args = Some (JObj [(''issuedVouchers'', JNum 5)])\<rparr>,
      \<lparr>fc_id = ''call-2'', fc_name = ''insert_daily_report'',
        fc_args = Some (JObj [(''issuedVouchers'', JNum 7)])\<rparr>])) =
     [Some (JStr ''report_1730000000000''), Some (JStr ''report_1730000000000'')]"
  by code_simp

text \<open>
  Claim C9, amended. The \<open>reportId\<close> of a successful submission is \<open>report_\<close>
  followed by the decimal clock reading in milliseconds; two successful submissions
  get the same \<open>reportId\<close> exactly when they read the same clock value.
\<close>

theorem reportId_same_iff_same_clock:
  "is_number (map_of kvs1 ''issuedVouchers'') \<and> \<not> number_below_zero (map_of kvs1 ''issuedVouchers'') \<and>
   is_number (map_of kvs2 ''issuedVouchers'') \<and> \<not> number_below_zero (map_of kvs2 ''issuedVouchers'') \<longrightarrow>
   (\<exists>r1 r2.
      submitDailyReport now1 (Some (JObj kvs1)) = Inr r1 \<and>
      submitDailyReport now2 (Some (JObj kvs2)) = Inr r2 \<and>
      read_prop r1 ''reportId'' = Some (JStr (''report_'' @ Number_toString now1)) \<and>
      read_prop r2 ''reportId'' = Some (JStr (''report_'' @ Number_toString now2)) \<and>
      (read_prop r1 ''reportId'' = read_prop r2 ''reportId'') = (now1 = now2))"
proof (intro impI)
  assume a: "is_number (map_of kvs1 ''issuedVouchers'') \<and> \<not> number_below_zero (map_of kvs1 ''issuedVouchers'') \<and>
   is_number (map_of kvs2 ''issuedVouchers'') \<and> \<not> number_below_zero (map_of kvs2 ''issuedVouchers'')"
  have inj: "(Number_toString now1 = Number_toString now2) = (now1 = now2)"
    using Number_toString_inj by auto
  show "\<exists>r1 r2.
      submitDailyReport now1 (Some (JObj kvs1)) = Inr r1 \<and>
      submitDailyReport now2 (Some (JObj kvs2)) = Inr r2 \<and>
      read_prop r1 ''reportId'' = Some (JStr (''report_'' @ Number_toString now1)) \<and>
      read_prop r2 ''reportId'' = Some (JStr (''report_'' @ Number_toString now2)) \<and>
      (read_prop r1 ''reportId'' = read_prop r2 ''reportId'') = (now1 = now2)"
    using a inj by (simp add: submitDailyReport_object)
qed

theorem reportId_same_iff_same_clock_witness:
  "is_number (map_of [(''issuedVouchers'', JNum 5)] ''issuedVouchers'') \<and>
   \<not> number_below_zero (map_of [(''issuedVouchers'', JNum 5)] ''issuedVouchers'') \<and>
   is_number (map_of [(''issuedVouchers'', JNum 7)] ''issuedVouchers'') \<and>
   \<not> number_below_zero (map_of [(''issuedVouchers'', JNum 7)] ''issuedVouchers'') \<and>
   (\<exists>r1 r2.
      submitDailyReport 1730000000000 (Some (JObj [(''issuedVouchers'', JNum 5)])) = Inr r1 \<and>
      submitDailyReport 1730000000001 (Some (JObj [(''issuedVouchers'', JNum 7)])) = Inr r2 \<and>
      read_prop r1 ''reportId'' \<noteq> read_prop r2 ''reportId'')"
  using reportId_same_iff_same_clock
    [of "[(''issuedVouchers'', JNum 5)]" "[(''issuedVouchers'', JNum 7)]" 1730000000000 1730000000001]
  by auto

section \<open>Further properties\<close>

lemma start_call_turns:
  "turns (foldl (start_call f g) s fcs) =
     turns s @
     map (\<lambda>fc. \<lparr>role = ''system'', message = TriggerMessage (fc_name fc) (fc_args fc),
                isFinal = True\<rparr>) fcs"
  by (induction fcs arbitrary: s)
     (auto simp: start_call_def complete_call_def Let_def split: option.splits)

lemma run_timers_turns: "turns (run_timers f g ticks s) = turns s"
proof (induction f g ticks s rule: run_timers.induct)
  case (1 f g ticks s)
  show ?case
  proof (cases "next_due (late (this_tick ticks)) (pending s)")
    case None
    then show ?thesis by (subst run_timers.simps) simp
  next
    case (Some a)
    obtain t rest where a: "a = (t, rest)" by (cases a)
    have "turns (run_timers f g ticks s) =
        turns (run_timers f g (tl ticks)
          (complete_call f g (t_call t)
             (s\<lparr>pending := rest, clock := clock s + int (elapsed (this_tick ticks))\<rparr>)))"
      by (subst run_timers.simps) (simp add: Some a)
    also have "\<dots> = turns (complete_call f g (t_call t)
             (s\<lparr>pending := rest, clock := clock s + int (elapsed (this_tick ticks))\<rparr>))"
      by (rule "1.IH" [OF Some a [symmetric]])
    also have "\<dots> = turns s"
      by (simp add: complete_call_def)
    finally show ?thesis .
  qed
qed

lemma length_sent: "length (sent (onToolCall_with f g t0 ticks batch)) = length batch"
proof -
  from onToolCall_with_results [of batch f g t0 ticks] obtain calls nows where
    c: "length nows = length calls" "mset calls = mset batch"
       "sent (onToolCall_with f g t0 ticks batch) = results_of f g calls nows"
    by blast
  have "length calls = length batch"
    using c(2) by (metis size_mset)
  with c show ?thesis
    by (simp add: length_results_of)
qed

text \<open>
  The log of one run: one trigger turn per request, in request order, then one turn
  with the results parsed back, unless the batch is empty.
\<close>

theorem log_turns_of_a_batch:
  "logged (onToolCall t0 ticks batch) =
     map (\<lambda>fc. \<lparr>role = ''system'', message = TriggerMessage (fc_name fc) (fc_args fc),
                isFinal = True\<rparr>) batch @
     (if batch = [] then []
      else [\<lparr>role = ''system'',
             message = ResponseMessage (map parsed_for_logging (sent (onToolCall t0 ticks batch))),
             isFinal = True\<rparr>])"
proof -
  define s0 :: dispatch_state where
    "s0 = \<lparr>functionResponses = [], turns = [], pending = [], clock = t0\<rparr>"
  define s2 where
    "s2 = run_timers fetchVoucherStatus submitDailyReport ticks
            (foldl (start_call fetchVoucherStatus submitDailyReport) s0 batch)"
  have t2: "turns s2 =
      map (\<lambda>fc. \<lparr>role = ''system'', message = TriggerMessage (fc_name fc) (fc_args fc),
                 isFinal = True\<rparr>) batch"
    by (simp add: s2_def s0_def run_timers_turns start_call_turns)
  have sent: "sent (onToolCall t0 ticks batch) = functionResponses s2"
    by (simp add: onToolCall_def onToolCall_with_def Let_def s2_def s0_def)
  have "length (functionResponses s2) = length batch"
    using length_sent [of fetchVoucherStatus submitDailyReport t0 ticks batch] sent
    by (simp add: onToolCall_def)
  then have ne: "(0 < length (functionResponses s2)) = (batch \<noteq> [])"
    by auto
  have lg: "logged (onToolCall t0 ticks batch) =
      (if 0 < length (functionResponses s2) then
         turns s2 @
         [\<lparr>role = ''system'',
           message = ResponseMessage (map parsed_for_logging (functionResponses s2)),
           isFinal = True\<rparr>]
       else turns s2)"
    by (simp add: onToolCall_def onToolCall_with_def Let_def s2_def s0_def)
  show ?thesis
    unfolding sent lg t2 ne by simp
qed

text \<open>
  Every casing of the voucher code \<open>expired456\<close> returns the expired payload with
  its reason.
\<close>

theorem expired_voucher_code:
  "map_of kvs ''voucherId'' = Some (JStr s) \<and> any_casing_of ''expired456'' s \<longrightarrow>
     fetchVoucherStatus (Some (JObj kvs)) =
       Inr (JObj [(''status'', JStr ''expired''),
                  (''reason'', JStr ''Voucher has passed its expiry date.'')])"
proof -
  have "\<not> (any_casing_of ''voucher123'' s \<and> any_casing_of ''expired456'' s)"
    by (auto simp: any_casing_of_def case_variant_def list_all2_Cons1)
  then show ?thesis
    by (auto simp: fetchVoucherStatus_object voucher_block_string)
qed

theorem expired_voucher_code_witness:
  "any_casing_of ''expired456'' ''EXPIRED456'' \<and>
   fetchVoucherStatus (Some (JObj [(''voucherId'', JStr ''EXPIRED456'')])) =
     Inr (JObj [(''status'', JStr ''expired''),
                (''reason'', JStr ''Voucher has passed its expiry date.'')])"
proof -
  have a: "any_casing_of ''expired456'' ''EXPIRED456''"
    by (simp add: any_casing_of_def case_variant_def)
  with expired_voucher_code [of "[(''voucherId'', JStr ''EXPIRED456'')]" "''EXPIRED456''"]
  show ?thesis by simp
qed

text \<open>
  The handlers raise on missing arguments, and \<open>fetchVoucherStatus\<close> raises on an
  identifier that is truthy but not a string; in the dispatcher these faults end in
  the \<open>catch\<close> of the branch.
\<close>

theorem garbled_arguments_raise:
  "fetchVoucherStatus None = Inl TypeError \<and>
   fetchVoucherStatus (Some JNull) = Inl TypeError \<and>
   submitDailyReport now None = Inl TypeError \<and>
   submitDailyReport now (Some JNull) = Inl TypeError \<and>
   (raises_on (map_of kvs ''voucherId'') \<longrightarrow> fetchVoucherStatus (Some (JObj kvs)) = Inl TypeError) \<and>
   (unknown_voucherId (map_of kvs ''voucherId'') \<and> raises_on (map_of kvs ''customerEmail'') \<longrightarrow>
      fetchVoucherStatus (Some (JObj kvs)) = Inl TypeError)"
proof -
  have v: "raises_on x \<Longrightarrow> voucher_block x = Inl TypeError" for x
    by (induction x rule: raises_on.induct) (simp_all add: voucher_block_def)
  have e: "raises_on x \<Longrightarrow> email_block x = Inl TypeError" for x
    by (induction x rule: raises_on.induct) (simp_all add: email_block_def)
  show ?thesis
    by (simp add: fetchVoucherStatus_object v e voucher_block_unknown)
       (simp add: fetchVoucherStatus_def submitDailyReport_def)
qed

theorem garbled_arguments_raise_witness:
  "raises_on (map_of [(''voucherId'', JNum 123)] ''voucherId'') \<and>
   fetchVoucherStatus (Some (JObj [(''voucherId'', JNum 123)])) = Inl TypeError \<and>
   unknown_voucherId (map_of [(''customerEmail'', JBool True)] ''voucherId'') \<and>
   raises_on (map_of [(''customerEmail'', JBool True)] ''customerEmail'') \<and>
   fetchVoucherStatus (Some (JObj [(''customerEmail'', JBool True)])) = Inl TypeError"
  using garbled_arguments_raise [of 0 "[(''voucherId'', JNum 123)]"]
    garbled_arguments_raise [of 0 "[(''customerEmail'', JBool True)]"]
  by simp

end
